theory Spec2Isabelle
  imports Main "HOL-Library.Sublist"
begin

section \<open>Data model of c_cpp_properties.json\<close>

text \<open>
  The interfaces of the configuration module. An optional field (\<open>f?: T\<close>) is an
  \<open>option\<close>, \<open>None\<close> standing for \<open>undefined\<close> (and for the \<open>null\<close> of the
  default values that come from the editor's settings). Strings are lists of 8-bit
  characters.
\<close>

datatype env_value = EnvString string | EnvList "string list"

type_synonym Environment = "(string \<times> env_value) list"

record KnownCompiler =
  kc_path :: string
  isC :: bool

datatype bool_or_string = BoolVal bool | StringVal string

record Browse =
  browse_path :: "string list option"
  limitSymbolsToIncludedHeaders :: "bool_or_string option"
  databaseFilename :: "string option"

record Configuration =
  name :: string
  compilerPath :: "string option"
  knownCompilers :: "KnownCompiler list option"
  cStandard :: "string option"
  cppStandard :: "string option"
  includePath :: "string list option"
  macFrameworkPath :: "string list option"
  windowsSdkVersion :: "string option"
  defines_list :: "string list option"
  intelliSenseMode :: "string option"
  compileCommands :: "string option"
  forcedInclude :: "string list option"
  configurationProvider :: "string option"
  browse :: "Browse option"

record ConfigurationJson =
  configurations :: "Configuration list"
  env :: "Environment option"
  version :: "int option"
  enableConfigurationSquiggles :: "bool option"

record CompilerPathAndArgs =
  cpa_compilerPath :: string
  compilerName :: string
  additionalArgs :: "string list option"

definition configVersion :: int where
  "configVersion = 4"

text \<open>The sentinel \<open>${default}\<close>.\<close>

definition default_token :: string where
  "default_token = ''${default}''"

text \<open>JavaScript truthiness of an optional string: \<open>undefined\<close>, \<open>null\<close> and \<open>""\<close> are falsy.\<close>

definition truthy :: "string option \<Rightarrow> bool" where
  "truthy s = (case s of None \<Rightarrow> False | Some v \<Rightarrow> v \<noteq> [])"

section \<open>String primitives of the host language\<close>

text \<open>
  \<open>s.split(sep)\<close> for a one-character separator: the pieces between the separators,
  empty pieces included; the empty string gives one empty piece.
\<close>

fun split_js :: "char \<Rightarrow> string \<Rightarrow> string list" where
  "split_js sep [] = [[]]"
| "split_js sep (c # cs) =
     (if c = sep then [] # split_js sep cs
      else (case split_js sep cs of
              [] \<Rightarrow> [[c]]
            | x # xs \<Rightarrow> (c # x) # xs))"

text \<open>
  The first occurrence of a pattern: the text before it and the text after it.
\<close>

fun split_first :: "string \<Rightarrow> string \<Rightarrow> (string \<times> string) option" where
  "split_first pat [] = (if pat = [] then Some ([], []) else None)"
| "split_first pat (c # cs) =
     (if prefix pat (c # cs) then Some ([], drop (length pat) (c # cs))
      else map_option (\<lambda>(b, a). (c # b, a)) (split_first pat cs))"

text \<open>
  The replacement text of \<open>String.prototype.replace\<close> is a pattern even when the
  searched value is a string: \<open>$$\<close> stands for a dollar, \<open>$&\<close> for the matched text,
  \<open>$`\<close> for the text before the match and \<open>$'\<close> for the text after it. A string
  pattern has no capture groups, so \<open>$1\<close> and the like stay as they are.
\<close>

fun GetSubstitution :: "string \<Rightarrow> string \<Rightarrow> string \<Rightarrow> string \<Rightarrow> string" where
  "GetSubstitution matched front back [] = []"
| "GetSubstitution matched front back [c] = [c]"
| "GetSubstitution matched front back (c # d # r) =
     (if c = CHR ''$'' \<and> d = CHR ''$'' then CHR ''$'' # GetSubstitution matched front back r
      else if c = CHR ''$'' \<and> d = CHR ''&'' then matched @ GetSubstitution matched front back r
      else if c = CHR ''$'' \<and> d = CHR 0x60 then front @ GetSubstitution matched front back r
      else if c = CHR ''$'' \<and> d = CHR 0x27 then back @ GetSubstitution matched front back r
      else c # GetSubstitution matched front back (d # r))"

text \<open>\<open>s.replace(pat, repl)\<close> for a string \<open>pat\<close>: the first occurrence only.\<close>

definition replace_js :: "string \<Rightarrow> string \<Rightarrow> string \<Rightarrow> string" where
  "replace_js s pat repl =
     (case split_first pat s of
        None \<Rightarrow> s
      | Some (b, a) \<Rightarrow> b @ GetSubstitution pat b a repl @ a)"

section \<open>Resolution of lists\<close>

text \<open>
  \<open>resolveDefaults\<close>: the \<open>forEach\<close> over the entries, the accumulator \<open>result\<close> threaded
  through. A default value of \<open>null\<close> adds nothing.
\<close>

definition resolveDefaults :: "string list \<Rightarrow> string list option \<Rightarrow> string list" where
  "resolveDefaults entries defaultValue =
     foldl (\<lambda>result entry.
              if entry = default_token
              then (case defaultValue of None \<Rightarrow> result | Some d \<Rightarrow> result @ d)
              else result @ [entry])
           [] entries"

text \<open>
  \<open>resolveAndSplit\<close>. The substitution of variables, \<open>util.resolveVariables\<close>, lives in
  another module and is the parameter \<open>rv\<close>.
\<close>

definition resolveAndSplit ::
  "(string \<Rightarrow> Environment \<Rightarrow> string) \<Rightarrow> string list option \<Rightarrow> string list option
     \<Rightarrow> Environment \<Rightarrow> string list" where
  "resolveAndSplit rv paths defaultValue environment =
     (case paths of
        None \<Rightarrow> []
      | Some ps \<Rightarrow>
          foldl (\<lambda>result entry.
                   result @ filter (\<lambda>e. e \<noteq> []) (split_js CHR '';'' (rv entry environment)))
                [] (resolveDefaults ps defaultValue))"

section \<open>Compatibility of compiler and IntelliSense mode\<close>

text \<open>
  \<open>isCompilerIntelliSenseModeCompatible\<close>. \<open>util.extractCompilerPathAndArgs\<close> lives in
  another module and is the parameter \<open>extract\<close>.
\<close>

definition isCompilerIntelliSenseModeCompatible ::
  "(string \<Rightarrow> CompilerPathAndArgs) \<Rightarrow> Configuration \<Rightarrow> bool" where
  "isCompilerIntelliSenseModeCompatible extract configuration =
     (if compilerPath configuration = None \<or>
         compilerPath configuration = Some [] \<or>
         compilerPath configuration = Some default_token \<or>
         intelliSenseMode configuration = None \<or>
         intelliSenseMode configuration = Some [] \<or>
         intelliSenseMode configuration = Some default_token
      then True
      else (compilerName (extract (the (compilerPath configuration))) = ''cl.exe'')
            = (intelliSenseMode configuration = Some ''msvc-x64''))"

section \<open>The counters of the diagnostics\<close>

record SquiggleMetrics =
  PathNonExistent :: nat
  PathNotAFile :: nat
  PathNotADirectory :: nat
  CompilerPathMissingQuotes :: nat
  CompilerModeMismatch :: nat

definition zero_metrics :: SquiggleMetrics where
  "zero_metrics =
     \<lparr>PathNonExistent = 0, PathNotAFile = 0, PathNotADirectory = 0,
      CompilerPathMissingQuotes = 0, CompilerModeMismatch = 0\<rparr>"

text \<open>
  \<open>prevSquiggleMetrics\<close> is created as a \<open>Map\<close>, but it is read and written with
  brackets, \<open>this.prevSquiggleMetrics[name]\<close>: these are the properties of the object,
  not the entries of the map. A read goes through the object's own properties and then
  through its prototypes, \<open>Map.prototype\<close> and \<open>Object.prototype\<close>; a write makes an own
  property, except for \<open>__proto__\<close>, whose setter replaces the prototype, and for
  \<open>size\<close>, an accessor of \<open>Map.prototype\<close> without a setter, on which the write throws
  a \<open>TypeError\<close> (the module is in strict mode).
\<close>

datatype slot = Undefined | Counts SquiggleMetrics | OtherValue

record MetricsObject =
  own_properties :: "(string \<times> SquiggleMetrics) list"
  prototype_replaced :: "SquiggleMetrics option"

definition new_Map :: MetricsObject where
  "new_Map = \<lparr>own_properties = [], prototype_replaced = None\<rparr>"

definition Map_prototype_names :: "string list" where
  "Map_prototype_names =
     [''constructor'', ''get'', ''set'', ''has'', ''delete'', ''clear'', ''entries'',
      ''forEach'', ''keys'', ''values'', ''size'']"

definition Object_prototype_names :: "string list" where
  "Object_prototype_names =
     [''constructor'', ''__defineGetter__'', ''__defineSetter__'', ''hasOwnProperty'',
      ''__lookupGetter__'', ''__lookupSetter__'', ''isPrototypeOf'', ''propertyIsEnumerable'',
      ''toString'', ''valueOf'', ''toLocaleString'']"

definition metric_names :: "string list" where
  "metric_names =
     [''PathNonExistent'', ''PathNotAFile'', ''PathNotADirectory'',
      ''CompilerPathMissingQuotes'', ''CompilerModeMismatch'']"

definition get_property :: "MetricsObject \<Rightarrow> string \<Rightarrow> slot" where
  "get_property obj n =
     (if n = ''__proto__''
      then (case prototype_replaced obj of None \<Rightarrow> OtherValue | Some m \<Rightarrow> Counts m)
      else (case map_of (own_properties obj) n of
              Some m \<Rightarrow> Counts m
            | None \<Rightarrow>
                (case prototype_replaced obj of
                   None \<Rightarrow>
                     if n \<in> set Map_prototype_names \<or> n \<in> set Object_prototype_names
                     then OtherValue else Undefined
                 | Some m \<Rightarrow>
                     if n \<in> set metric_names \<or> n \<in> set Object_prototype_names
                     then OtherValue else Undefined)))"

text \<open>\<open>None\<close> is the \<open>TypeError\<close>.\<close>

definition set_property :: "MetricsObject \<Rightarrow> string \<Rightarrow> SquiggleMetrics \<Rightarrow> MetricsObject option" where
  "set_property obj n m =
     (if n = ''__proto__'' then Some (obj\<lparr>prototype_replaced := Some m\<rparr>)
      else if n = ''size'' \<and> prototype_replaced obj = None \<and> map_of (own_properties obj) n = None
      then None
      else Some (obj\<lparr>own_properties :=
                   (if map_of (own_properties obj) n = None
                    then own_properties obj @ [(n, m)]
                    else map (\<lambda>(k, v). if k = n then (k, m) else (k, v)) (own_properties obj))\<rparr>))"

section \<open>The host: platform, settings, collaborators\<close>

datatype platform = Darwin | Win32 | OtherPlatform

text \<open>
  The values of \<open>CppSettings\<close> that the load reads (each \<open>null\<close> when the user has not
  set it).
\<close>

record CppSettings =
  settings_defaultIntelliSenseMode :: "string option"
  settings_defaultCompilerPath :: "string option"
  settings_defaultCStandard :: "string option"
  settings_defaultCppStandard :: "string option"
  settings_defaultEnableConfigurationSquiggles :: "bool option"

text \<open>
  What \<open>JSON.parse\<close> gives for a text: a syntax error (it throws), a falsy value
  (\<open>null\<close>, \<open>0\<close>, \<open>false\<close>, \<open>""\<close>), a value without a truthy \<open>configurations\<close>
  member, or a document.
\<close>

datatype json_parse_result =
    SyntaxError
  | Falsy
  | NoConfigurations
  | Document ConfigurationJson

text \<open>
  What the module takes from outside: the platform, the settings, the functions of other
  modules (\<open>util\<close>, the custom configuration providers), of the runtime (\<open>JSON\<close>,
  \<open>path\<close>) and the state of the file system.
\<close>

record Host =
  process_platform :: platform
  settings :: CppSettings
  JSON_parse :: "string \<Rightarrow> json_parse_result"
  checkId :: "string option \<Rightarrow> string option"
  file_writable :: bool
  rootUri_fsPath :: string
  path_basename :: "string \<Rightarrow> string"
  path_sep :: char
  getVcpkgRoot :: "string option"
  resolveVariables :: "string \<Rightarrow> Environment \<Rightarrow> string"
  extractCompilerPathAndArgs :: "string \<Rightarrow> CompilerPathAndArgs"
  escapeForSquiggles :: "string \<Rightarrow> string"
  existsSync :: "string \<Rightarrow> bool"
  checkFileExistsSync :: "string \<Rightarrow> bool"
  checkDirectoryExistsSync :: "string \<Rightarrow> bool"

text \<open>The fields of the class \<open>CppProperties\<close> that the load reads or writes.\<close>

record CppProperties =
  configurationJson :: "ConfigurationJson option"
  currentConfigurationIndex :: int
  configurationIncomplete :: bool
  defaultCompilerPath :: "string option"
  defaultCStandard :: "string option"
  defaultCppStandard :: "string option"
  rootfs :: "string option"
  propertiesFile :: "string option"
  prevSquiggleMetrics :: MetricsObject

datatype message =
    FailedToParse
  | UnknownVersionNumber
  | AttemptToUpdateFailed

section \<open>Selection of a configuration\<close>

definition platform_name :: "platform \<Rightarrow> string" where
  "platform_name p = (case p of Darwin \<Rightarrow> ''Mac'' | Win32 \<Rightarrow> ''Win32'' | OtherPlatform \<Rightarrow> ''Linux'')"

text \<open>
  The loop \<open>for (i = k; i < cs.length; i++) if (cs[i].name === n) ...\<close>, on the
  configurations from index \<open>k\<close> on: the first index whose name is \<open>n\<close>.
\<close>

fun first_named :: "string \<Rightarrow> nat \<Rightarrow> Configuration list \<Rightarrow> nat option" where
  "first_named n k [] = None"
| "first_named n k (c # cs) = (if name c = n then Some k else first_named n (Suc k) cs)"

text \<open>
  \<open>getConfigIndexForPlatform\<close>. At each of its calls the argument is the document held in
  \<open>this.configurationJson\<close>, whose length the source reads.
\<close>

definition getConfigIndexForPlatform :: "Host \<Rightarrow> ConfigurationJson \<Rightarrow> int" where
  "getConfigIndexForPlatform h config =
     (case first_named (platform_name (process_platform h)) 0 (configurations config) of
        Some i \<Rightarrow> int i
      | None \<Rightarrow> int (length (configurations config)) - 1)"

definition getIntelliSenseModeForPlatform :: "Host \<Rightarrow> string \<Rightarrow> string" where
  "getIntelliSenseModeForPlatform h n =
     (if n = ''Linux'' then ''gcc-x64''
      else if n = ''Mac'' then ''clang-x64''
      else if n = ''Win32'' then ''msvc-x64''
      else if process_platform h = Win32 then ''msvc-x64''
      else if process_platform h = Darwin then ''clang-x64''
      else ''gcc-x64'')"

section \<open>Migration of the schema version\<close>

definition updateToVersion2 :: "ConfigurationJson \<Rightarrow> ConfigurationJson" where
  "updateToVersion2 j = j\<lparr>version := Some 2\<rparr>"

definition updateToVersion3_config :: "Host \<Rightarrow> Configuration \<Rightarrow> Configuration" where
  "updateToVersion3_config h config =
     (if name config = ''Mac'' \<or>
         (process_platform h = Darwin \<and> name config \<noteq> ''Win32'' \<and> name config \<noteq> ''Linux'')
      then (if macFrameworkPath config = None
            then config\<lparr>macFrameworkPath := Some [''/System/Library/Frameworks'', ''/Library/Frameworks'']\<rparr>
            else config)
      else config)"

definition updateToVersion3 :: "Host \<Rightarrow> ConfigurationJson \<Rightarrow> ConfigurationJson" where
  "updateToVersion3 h j =
     j\<lparr>version := Some 3, configurations := map (updateToVersion3_config h) (configurations j)\<rparr>"

text \<open>
  The body of the loop of \<open>updateToVersion4\<close> is four \<open>if\<close> statements in a row, one for
  each field that is filled in.
\<close>

definition v4_intelliSenseMode :: "Host \<Rightarrow> Configuration \<Rightarrow> Configuration" where
  "v4_intelliSenseMode h config =
     (if intelliSenseMode config = None \<and> \<not> truthy (settings_defaultIntelliSenseMode (settings h))
      then config\<lparr>intelliSenseMode := Some (getIntelliSenseModeForPlatform h (name config))\<rparr>
      else config)"

definition v4_compilerPath :: "Host \<Rightarrow> CppProperties \<Rightarrow> Configuration \<Rightarrow> Configuration" where
  "v4_compilerPath h st config =
     (if compilerPath config = None \<and> truthy (defaultCompilerPath st) \<and>
         \<not> truthy (compileCommands config) \<and> \<not> truthy (settings_defaultCompilerPath (settings h))
      then config\<lparr>compilerPath := defaultCompilerPath st\<rparr>
      else config)"

definition v4_cStandard :: "Host \<Rightarrow> CppProperties \<Rightarrow> Configuration \<Rightarrow> Configuration" where
  "v4_cStandard h st config =
     (if \<not> truthy (cStandard config) \<and> truthy (defaultCStandard st) \<and>
         \<not> truthy (settings_defaultCStandard (settings h))
      then config\<lparr>cStandard := defaultCStandard st\<rparr>
      else config)"

definition v4_cppStandard :: "Host \<Rightarrow> CppProperties \<Rightarrow> Configuration \<Rightarrow> Configuration" where
  "v4_cppStandard h st config =
     (if \<not> truthy (cppStandard config) \<and> truthy (defaultCppStandard st) \<and>
         \<not> truthy (settings_defaultCppStandard (settings h))
      then config\<lparr>cppStandard := defaultCppStandard st\<rparr>
      else config)"

definition updateToVersion4_config :: "Host \<Rightarrow> CppProperties \<Rightarrow> Configuration \<Rightarrow> Configuration" where
  "updateToVersion4_config h st config =
     v4_cppStandard h st (v4_cStandard h st (v4_compilerPath h st (v4_intelliSenseMode h config)))"

definition updateToVersion4 :: "Host \<Rightarrow> CppProperties \<Rightarrow> ConfigurationJson \<Rightarrow> ConfigurationJson" where
  "updateToVersion4 h st j =
     j\<lparr>version := Some 4, configurations := map (updateToVersion4_config h st) (configurations j)\<rparr>"

text \<open>
  The version block of \<open>parsePropertiesFile\<close>: three \<open>if\<close>s in a row, the last with an
  \<open>else\<close> that stamps the current version and shows a message. It returns whether the
  document is dirty, the messages shown and the document.
\<close>

definition migrate_version ::
  "Host \<Rightarrow> CppProperties \<Rightarrow> ConfigurationJson \<Rightarrow> bool \<times> message list \<times> ConfigurationJson" where
  "migrate_version h st j =
     (if version j \<noteq> Some configVersion
      then (let j1 = (if version j = None then updateToVersion2 j else j);
                j2 = (if version j1 = Some 2 then updateToVersion3 h j1 else j1)
            in (if version j2 = Some 3
                then (True, [], updateToVersion4 h st j2)
                else (True, [UnknownVersionNumber], j2\<lparr>version := Some configVersion\<rparr>)))
      else (False, [], j))"

section \<open>Loading the file\<close>

definition reserved_names :: "string list" where
  "reserved_names = [''workspaceRoot'', ''workspaceFolder'', ''workspaceFolderBasename'', ''default'']"

definition strip_reserved :: "Environment option \<Rightarrow> Environment option" where
  "strip_reserved e = map_option (filter (\<lambda>(k, v). k \<notin> set reserved_names)) e"

record ParseOutcome =
  success :: "bool option"
  state :: CppProperties
  shown :: "message list"
  squiggles_requested :: bool

definition parse_failed :: "CppProperties \<Rightarrow> ParseOutcome" where
  "parse_failed st =
     \<lparr>success = Some False, state = st, shown = [FailedToParse], squiggles_requested = False\<rparr>"

text \<open>
  The selection kept across a reload: when the configuration is complete and the index
  held selects a configuration of the document held, the first configuration of the new
  document with that name; the index held otherwise.
\<close>

definition same_configuration_index :: "CppProperties \<Rightarrow> ConfigurationJson \<Rightarrow> int" where
  "same_configuration_index st newJson =
     (case configurationJson st of
        None \<Rightarrow> currentConfigurationIndex st
      | Some old \<Rightarrow>
          if \<not> configurationIncomplete st \<and> 0 \<le> currentConfigurationIndex st \<and>
             currentConfigurationIndex st < int (length (configurations old))
          then (case first_named (name (configurations old ! nat (currentConfigurationIndex st))) 0
                       (configurations newJson) of
                  Some i \<Rightarrow> int i
                | None \<Rightarrow> currentConfigurationIndex st)
          else currentConfigurationIndex st)"

text \<open>
  \<open>parsePropertiesFile\<close>. The text read is \<open>None\<close> when reading the file throws. The
  outcome \<open>success = None\<close> is the bare \<open>return\<close> on an empty text.
\<close>

definition parsePropertiesFile :: "Host \<Rightarrow> CppProperties \<Rightarrow> string option \<Rightarrow> ParseOutcome" where
  "parsePropertiesFile h st readResults =
     (case readResults of
        None \<Rightarrow> parse_failed st
      | Some text \<Rightarrow>
          if text = [] then \<lparr>success = None, state = st, shown = [], squiggles_requested = False\<rparr>
          else (case JSON_parse h text of
                  SyntaxError \<Rightarrow> parse_failed st
                | Falsy \<Rightarrow> parse_failed st
                | NoConfigurations \<Rightarrow> parse_failed st
                | Document newJson \<Rightarrow>
                    if configurations newJson = [] then parse_failed st
                    else
                      (let idx1 = same_configuration_index st newJson;
                           idx2 = (if idx1 < 0 \<or> int (length (configurations newJson)) \<le> idx1
                                   then getConfigIndexForPlatform h newJson else idx1);
                           dirty1 = (\<exists>c \<in> set (configurations newJson).
                                       checkId h (configurationProvider c) \<noteq> configurationProvider c);
                           j1 = newJson\<lparr>configurations :=
                                  map (\<lambda>c. c\<lparr>configurationProvider := checkId h (configurationProvider c)\<rparr>)
                                      (configurations newJson)\<rparr>;
                           j2 = j1\<lparr>env := strip_reserved (env j1)\<rparr>;
                           st1 = st\<lparr>currentConfigurationIndex := idx2, configurationIncomplete := False\<rparr>;
                           (dirty2, msgs, j3) = migrate_version h st1 j2;
                           st2 = st1\<lparr>configurationJson := Some j3\<rparr>
                       in if (dirty1 \<or> dirty2) \<and> \<not> file_writable h
                          then \<lparr>success = Some False, state = st2,
                                shown = msgs @ [AttemptToUpdateFailed], squiggles_requested = False\<rparr>
                          else \<lparr>success = Some True, state = st2,
                                shown = msgs, squiggles_requested = True\<rparr>)))"

section \<open>Resolution of a path\<close>

text \<open>
  \<open>Object.assign\<close> followed by an assignment to one key: the key keeps its place when it
  is there already and goes to the end otherwise.
\<close>

fun set_key :: "string \<Rightarrow> env_value \<Rightarrow> Environment \<Rightarrow> Environment" where
  "set_key k v [] = [(k, v)]"
| "set_key k v ((k', v') # e) = (if k' = k then (k, v) # e else (k', v') # set_key k v e)"

text \<open>
  \<open>ExtendedEnvironment\<close>, of the document held in \<open>this.configurationJson\<close>.
\<close>

definition ExtendedEnvironment :: "Host \<Rightarrow> ConfigurationJson \<Rightarrow> Environment" where
  "ExtendedEnvironment h j =
     set_key ''workspaceFolderBasename'' (EnvString (path_basename h (rootUri_fsPath h)))
       (case env j of None \<Rightarrow> [] | Some e \<Rightarrow> e)"

text \<open>
  \<open>resolvePath\<close>, in the three parts of its body: the replacement of the workspace
  tokens, the removal of the stars, and the WSL paths.
\<close>

definition replace_tokens :: "Host \<Rightarrow> string \<Rightarrow> string" where
  "replace_tokens h result =
     (let r1 = (if sublist ''${workspaceFolder}'' result
                then replace_js result ''${workspaceFolder}'' (rootUri_fsPath h) else result);
          r2 = (if sublist ''${workspaceRoot}'' r1
                then replace_js r1 ''${workspaceRoot}'' (rootUri_fsPath h) else r1);
          r3 = (if sublist ''${vcpkgRoot}'' r2 \<and> truthy (getVcpkgRoot h)
                then replace_js r2 ''${vcpkgRoot}'' (the (getVcpkgRoot h)) else r2)
      in r3)"

definition remove_stars :: "string \<Rightarrow> string" where
  "remove_stars result = filter (\<lambda>c. c \<noteq> CHR ''*'') result"

definition resolve_wsl :: "CppProperties \<Rightarrow> bool \<Rightarrow> string \<Rightarrow> string" where
  "resolve_wsl st isWindows result =
     (if isWindows \<and> prefix ''/'' result
      then (if length ''/mnt/c/'' < length result \<and> take (length ''/mnt/'') result = ''/mnt/''
            then (let r = drop (length ''/mnt/'') result in take 1 r @ '':'' @ drop 1 r)
            else if truthy (rootfs st) then the (rootfs st) @ drop 1 result
            else result)
      else result)"

definition resolvePath ::
  "Host \<Rightarrow> CppProperties \<Rightarrow> ConfigurationJson \<Rightarrow> string option \<Rightarrow> bool \<Rightarrow> string" where
  "resolvePath h st j path isWindows =
     (if \<not> truthy path \<or> path = Some default_token then []
      else resolve_wsl st isWindows
             (remove_stars
               (replace_tokens h (resolveVariables h (the path) (ExtendedEnvironment h j)))))"

section \<open>Searching a text\<close>

text \<open>
  The class \<open>\s\<close> of regular expressions, on 8-bit characters: tab, line feed,
  vertical tab, form feed, carriage return, space and the no-break space.
\<close>

definition is_space :: "char \<Rightarrow> bool" where
  "is_space c \<longleftrightarrow> c \<in> set [CHR 0x09, CHR 0x0A, CHR 0x0B, CHR 0x0C, CHR 0x0D, CHR 0x20, CHR 0xA0]"

text \<open>
  The regular expressions that locate a configuration and its keys are sequences of
  literal texts and \<open>\s*\<close>. Every \<open>\s*\<close> in them is followed by a literal that starts
  with a character that is not white space, so the greedy \<open>\s*\<close> takes all the white
  space there is and no shorter choice can match where this one fails.
\<close>

datatype item = WS | Lit string

fun matches_items :: "item list \<Rightarrow> string \<Rightarrow> bool" where
  "matches_items [] s = True"
| "matches_items (WS # rest) s = matches_items rest (dropWhile is_space s)"
| "matches_items (Lit l # rest) s = (prefix l s \<and> matches_items rest (drop (length l) s))"

text \<open>
  \<open>s.search(re)\<close>: the first index at which the expression matches, \<open>-1\<close> when there is
  none. The second argument is the text from index \<open>k\<close> on.
\<close>

fun search_at :: "(string \<Rightarrow> bool) \<Rightarrow> string \<Rightarrow> nat \<Rightarrow> int" where
  "search_at m [] k = (if m [] then int k else - 1)"
| "search_at m (c # cs) k = (if m (c # cs) then int k else search_at m cs (Suc k))"

definition search_items :: "item list \<Rightarrow> string \<Rightarrow> int" where
  "search_items items s = search_at (matches_items items) s 0"

text \<open>\<open>s.indexOf(pat, from)\<close>; a negative \<open>from\<close> counts as 0.\<close>

definition indexOf :: "string \<Rightarrow> string \<Rightarrow> int \<Rightarrow> int" where
  "indexOf s pat from =
     (let k = min (nat (max 0 from)) (length s) in search_at (prefix pat) (drop k s) k)"

text \<open>\<open>s.substr(start)\<close> and \<open>s.substr(0, n)\<close> for indices that are not negative.\<close>

definition substr_from :: "string \<Rightarrow> int \<Rightarrow> string" where
  "substr_from s start = drop (nat start) s"

definition substr_to :: "string \<Rightarrow> int \<Rightarrow> string" where
  "substr_to s n = take (nat n) s"

text \<open>\<open>s.trim()\<close>: white space and line terminators go from both ends.\<close>

definition trim_js :: "string \<Rightarrow> string" where
  "trim_js s = rev (dropWhile is_space (rev (dropWhile is_space s)))"

section \<open>The pattern of a path\<close>

text \<open>
  For a path the pass builds the expression
  \<open>"[^"]*?(?<="|;)P(?="|;).*?"\<close> with the flag \<open>g\<close>, where \<open>P\<close> matches the raw path,
  its quotes written as in the file, with a backslash before them.
\<close>

definition dquote :: char where
  "dquote = CHR 0x22"

definition is_delim :: "char \<Rightarrow> bool" where
  "is_delim c \<longleftrightarrow> c = dquote \<or> c = CHR '';''"

text \<open>The dot of an expression matches everything but a line terminator.\<close>

definition is_line_terminator :: "char \<Rightarrow> bool" where
  "is_line_terminator c \<longleftrightarrow> c = CHR 0x0A \<or> c = CHR 0x0D"

fun escape_quotes :: "string \<Rightarrow> string" where
  "escape_quotes [] = []"
| "escape_quotes (c # cs) = (if c = dquote then CHR 0x5C # dquote # escape_quotes cs
                            else c # escape_quotes cs)"

text \<open>
  \<open>.*?"\<close>, the end of the expression: the shortest run of characters other than line
  terminators up to a quote. The result is the number of characters taken, the quote
  included.
\<close>

fun lazy_to_quote :: "string \<Rightarrow> nat option" where
  "lazy_to_quote [] = None"
| "lazy_to_quote (c # cs) =
     (if c = dquote then Some 1
      else if is_line_terminator c then None
      else map_option Suc (lazy_to_quote cs))"

text \<open>
  What follows \<open>[^"]*?\<close> at one position: the character before is a quote or a semicolon,
  the path is here, a quote or a semicolon follows it, and the end of the expression
  matches.
\<close>

definition path_here :: "string \<Rightarrow> char \<Rightarrow> string \<Rightarrow> nat option" where
  "path_here p prev s =
     (if is_delim prev \<and> prefix p s \<and> drop (length p) s \<noteq> [] \<and> is_delim (hd (drop (length p) s))
      then map_option (\<lambda>n. length p + n) (lazy_to_quote (drop (length p) s))
      else None)"

text \<open>
  \<open>[^"]*?\<close> and what follows: the lazy star tries the shortest run first and grows it by
  one character that is not a quote whenever the rest fails. The result is the number of
  characters matched after the opening quote.
\<close>

fun path_body :: "string \<Rightarrow> char \<Rightarrow> string \<Rightarrow> nat option" where
  "path_body p prev [] = path_here p prev []"
| "path_body p prev (c # cs) =
     (case path_here p prev (c # cs) of
        Some n \<Rightarrow> Some n
      | None \<Rightarrow> if c = dquote then None else map_option Suc (path_body p c cs))"

text \<open>The whole expression at the start of a text: the length of the match.\<close>

fun path_match_at :: "string \<Rightarrow> string \<Rightarrow> nat option" where
  "path_match_at p [] = None"
| "path_match_at p (c # cs) = (if c = dquote then map_option Suc (path_body p c cs) else None)"

text \<open>The first match in a text: where it starts and how long it is.\<close>

fun first_match :: "string \<Rightarrow> string \<Rightarrow> (nat \<times> nat) option" where
  "first_match p [] = None"
| "first_match p (c # cs) =
     (case path_match_at p (c # cs) of
        Some n \<Rightarrow> Some (0, n)
      | None \<Rightarrow> map_option (\<lambda>(i, n). (Suc i, n)) (first_match p cs))"

definition search_path :: "string \<Rightarrow> string \<Rightarrow> int" where
  "search_path p s = (case first_match p s of None \<Rightarrow> - 1 | Some (i, n) \<Rightarrow> int i)"

lemma first_match_positive:
  "first_match p s = Some (i, n) \<Longrightarrow> 0 < n"
proof (induction s arbitrary: i)
  case Nil
  then show ?case by simp
next
  case (Cons c cs)
  show ?case
  proof (cases "path_match_at p (c # cs)")
    case None
    with Cons.prems obtain i' where "first_match p cs = Some (i', n)" by auto
    with Cons.IH show ?thesis by blast
  next
    case (Some k)
    with Cons.prems have "n = k" by simp
    with Some show ?thesis by (auto split: if_splits)
  qed
qed

text \<open>
  \<open>s.match(re)\<close> with the flag \<open>g\<close>: the matches from left to right, each search
  starting where the match before ended. (The expression looks behind only at a
  character that is part of the match, so the text before the start of a search does not
  matter.)
\<close>

function match_all :: "string \<Rightarrow> string \<Rightarrow> string list" where
  "match_all p s =
     (case first_match p s of
        None \<Rightarrow> []
      | Some (i, n) \<Rightarrow> take n (drop i s) # match_all p (drop (i + n) s))"
  by pat_completeness auto
termination
proof (relation "measure (\<lambda>(p, s). length s)")
  show "wf (measure (\<lambda>(p, s). length s))" by simp
next
  fix p s x2 x y
  assume a: "first_match p s = Some x2" "(x, y) = x2"
  then have "first_match p s = Some (x, y)" by simp
  from first_match_positive [OF this] have "0 < y" .
  moreover from a have "s \<noteq> []" by (cases s) auto
  ultimately show "((p, drop (x + y) s), (p, s)) \<in> measure (\<lambda>(p, s). length s)"
    by simp
qed

section \<open>Diagnostics for the configuration file\<close>

datatype diagnostic_message =
    CannotFind string
  | PathIsNotAFile string
  | PathIsNotADirectory string
  | CompilerPathNeedsQuotes
  | IntelliSenseModeIncompatible "string option"

text \<open>A diagnostic: the offsets given to \<open>document.positionAt\<close> and the message.\<close>

record Diagnostic =
  range_start :: int
  range_end :: int
  diag_message :: diagnostic_message

record KeyRanges =
  forcedIncludeStart :: int
  forcedeIncludeEnd :: int
  compileCommandsStart :: int
  compileCommandsEnd :: int
  compilerPathStart :: int
  compilerPathEnd :: int

record PathCheck =
  resolvedPath :: string
  pathExists :: bool
  compilerPathNeedsQuotes :: bool

text \<open>The window of the text that holds the current configuration.\<close>

datatype window = ConfigNameNotFirst | NextConfigNameNotFirst | Window int string

definition config_window :: "string \<Rightarrow> string \<Rightarrow> window" where
  "config_window text n =
     (let configStart = search_items
            [Lit ''{'', WS, Lit (dquote # ''name'' @ [dquote]), WS, Lit '':'', WS,
             Lit (dquote # n @ [dquote])] text
      in if configStart = - 1 then ConfigNameNotFirst
         else
           (let curTextStartOffset = configStart + 1;
                curText = substr_from text curTextStartOffset;
                nameEnd = indexOf curText '':'' 0;
                curTextStartOffset = curTextStartOffset + (nameEnd + 1);
                curText = substr_from curText (nameEnd + 1);
                nextNameStart = search_items
                  [Lit (dquote # ''name'' @ [dquote]), WS, Lit '':'', WS, Lit [dquote]] curText
            in if nextNameStart \<noteq> - 1
               then (let curText = substr_to curText (nextNameStart + 6);
                         nextNameStart2 = search_items
                           [WS, Lit ''}'', WS, Lit '','', WS, Lit ''{'', WS,
                            Lit (dquote # ''name'' @ [dquote])] curText
                     in if nextNameStart2 = - 1 then NextConfigNameNotFirst
                        else Window curTextStartOffset (substr_to curText nextNameStart2))
               else Window curTextStartOffset curText))"

text \<open>The start of a key with a string value, as the pass searches for it.\<close>

definition key_items :: "string \<Rightarrow> string \<Rightarrow> item list" where
  "key_items k opening = [WS, Lit (dquote # k @ [dquote]), WS, Lit '':'', WS, Lit opening]"

definition key_ranges :: "string \<Rightarrow> KeyRanges" where
  "key_ranges curText =
     (let fis = search_items (key_items ''forcedInclude'' ''['') curText;
          ccs = search_items (key_items ''compileCommands'' [dquote]) curText;
          cps = search_items (key_items ''compilerPath'' [dquote]) curText
      in \<lparr>forcedIncludeStart = fis,
          forcedeIncludeEnd = (if fis = - 1 then - 1 else indexOf curText '']'' fis),
          compileCommandsStart = ccs,
          compileCommandsEnd =
            (if ccs = - 1 then - 1
             else indexOf curText [dquote] (indexOf curText [dquote] (indexOf curText '':'' ccs) + 1)),
          compilerPathStart = cps,
          compilerPathEnd =
            (if cps = - 1 then - 1
             else indexOf curText [dquote] (indexOf curText [dquote] (indexOf curText '':'' cps) + 1)
                  + 1)\<rparr>)"

text \<open>
  The paths of interest: a \<open>Set\<close>, which keeps the order of the first insertions.
\<close>

definition add_paths :: "string list \<Rightarrow> string list option \<Rightarrow> string list" where
  "add_paths paths pathArray =
     (case pathArray of
        None \<Rightarrow> paths
      | Some ps \<Rightarrow> foldl (\<lambda>acc p. if p \<in> set acc then acc else acc @ [p]) paths ps)"

definition paths_of_interest :: "Configuration \<Rightarrow> string list" where
  "paths_of_interest currentConfiguration =
     (let paths = add_paths [] (case browse currentConfiguration of
                                   None \<Rightarrow> None | Some b \<Rightarrow> browse_path b);
          paths = add_paths paths (includePath currentConfiguration);
          paths = add_paths paths (macFrameworkPath currentConfiguration);
          paths = add_paths paths (forcedInclude currentConfiguration);
          paths = (if truthy (compileCommands currentConfiguration)
                   then add_paths paths (Some [the (compileCommands currentConfiguration)])
                   else paths);
          paths = (if truthy (compilerPath currentConfiguration)
                   then add_paths paths (Some [the (compilerPath currentConfiguration)])
                   else paths)
      in paths)"

text \<open>
  The first part of the body of the loop over the paths: the path is resolved and looked
  for. \<open>None\<close> is a \<open>continue\<close>.
\<close>

definition normalize_separators :: "Host \<Rightarrow> string \<Rightarrow> string" where
  "normalize_separators h s =
     (if path_sep h = CHR ''/'' then map (\<lambda>c. if c = CHR 0x5C then path_sep h else c) s
      else map (\<lambda>c. if c = CHR ''/'' then path_sep h else c) s)"

definition check_path ::
  "Host \<Rightarrow> CppProperties \<Rightarrow> ConfigurationJson \<Rightarrow> bool \<Rightarrow> Configuration \<Rightarrow> string
     \<Rightarrow> PathCheck option" where
  "check_path h st j isWindows currentConfiguration curPath =
     (let isCompilerPath = (Some curPath = compilerPath currentConfiguration) in
      if curPath = default_token then None
      else
        (let resolved0 = resolvePath h st j (Some curPath) isWindows in
         if resolved0 = [] then None
         else
           (case (if isCompilerPath
                  then (let trimmed = trim_js resolved0;
                            compilerPathAndArgs = extractCompilerPathAndArgs h trimmed
                        in if isWindows \<and> compilerName compilerPathAndArgs = ''cl.exe'' then None
                           else Some (cpa_compilerPath compilerPathAndArgs,
                                      additionalArgs compilerPathAndArgs \<noteq> None \<and>
                                      \<not> prefix [dquote] trimmed \<and>
                                      CHR '' '' \<in> set (cpa_compilerPath compilerPathAndArgs)))
                  else Some (resolved0, False)) of
              None \<Rightarrow> None
            | Some (resolved, needsQuotes) \<Rightarrow>
                (let isWSL = (isWindows \<and> prefix ''/'' resolved);
                     existsWithExeAdded =
                       (isCompilerPath \<and> isWindows \<and> \<not> isWSL \<and> existsSync h (resolved @ ''.exe''));
                     relativePath = rootUri_fsPath h @ [path_sep h] @ resolved;
                     found =
                       (if \<not> existsSync h resolved
                        then (if existsWithExeAdded then (resolved @ ''.exe'', True)
                              else if \<not> existsSync h relativePath
                              then (if existsWithExeAdded then (resolved @ ''.exe'', True)
                                    else (resolved, False))
                              else (relativePath, True))
                        else (resolved, True))
                 in Some \<lparr>resolvedPath = normalize_separators h (fst found),
                          pathExists = snd found,
                          compilerPathNeedsQuotes = needsQuotes\<rparr>))))"

text \<open>
  What one match gets: the message and the counter that goes up, or nothing (\<open>None\<close>,
  a \<open>continue\<close>) when the path is of the kind its key asks for.
\<close>

definition squiggle_message ::
  "Host \<Rightarrow> KeyRanges \<Rightarrow> PathCheck \<Rightarrow> int
     \<Rightarrow> (diagnostic_message \<times> (SquiggleMetrics \<Rightarrow> SquiggleMetrics)) option" where
  "squiggle_message h kr pc curOffset =
     (if \<not> pathExists pc
      then Some (CannotFind (resolvedPath pc),
                 \<lambda>m. m\<lparr>PathNonExistent := PathNonExistent m + 1\<rparr>)
      else if (forcedIncludeStart kr \<le> curOffset \<and> curOffset \<le> forcedeIncludeEnd kr) \<or>
              (compileCommandsStart kr \<le> curOffset \<and> curOffset \<le> compileCommandsEnd kr) \<or>
              (compilerPathStart kr \<le> curOffset \<and> curOffset \<le> compilerPathEnd kr)
      then (if compilerPathNeedsQuotes pc
            then Some (CompilerPathNeedsQuotes,
                       \<lambda>m. m\<lparr>CompilerPathMissingQuotes := CompilerPathMissingQuotes m + 1\<rparr>)
            else if checkFileExistsSync h (resolvedPath pc) then None
            else Some (PathIsNotAFile (resolvedPath pc),
                       \<lambda>m. m\<lparr>PathNotAFile := PathNotAFile m + 1\<rparr>))
      else if checkDirectoryExistsSync h (resolvedPath pc) then None
      else Some (PathIsNotADirectory (resolvedPath pc),
                 \<lambda>m. m\<lparr>PathNotADirectory := PathNotADirectory m + 1\<rparr>))"

text \<open>
  The loop over the matches of one path. The offset of a match is found by a search in
  the text that follows the match before.
\<close>

fun squiggle_matches ::
  "Host \<Rightarrow> KeyRanges \<Rightarrow> PathCheck \<Rightarrow> string \<Rightarrow> string \<Rightarrow> int \<Rightarrow> string list \<Rightarrow> int
     \<Rightarrow> Diagnostic list \<times> SquiggleMetrics \<Rightarrow> Diagnostic list \<times> SquiggleMetrics" where
  "squiggle_matches h kr pc p curText curTextStartOffset [] endOffset acc = acc"
| "squiggle_matches h kr pc p curText curTextStartOffset (curMatch # matches) endOffset (ds, m) =
     (let curOffset = search_path p (substr_from curText endOffset) + endOffset;
          endOffset = curOffset + int (length curMatch)
      in squiggle_matches h kr pc p curText curTextStartOffset matches endOffset
           (case squiggle_message h kr pc curOffset of
              None \<Rightarrow> (ds, m)
            | Some (message, count) \<Rightarrow>
                (ds @ [\<lparr>range_start = curTextStartOffset + curOffset,
                         range_end = curTextStartOffset + endOffset,
                         diag_message = message\<rparr>],
                 count m)))"

text \<open>The body of the loop over the paths.\<close>

definition squiggle_path ::
  "Host \<Rightarrow> CppProperties \<Rightarrow> ConfigurationJson \<Rightarrow> bool \<Rightarrow> Configuration \<Rightarrow> KeyRanges
     \<Rightarrow> string \<Rightarrow> int \<Rightarrow> Diagnostic list \<times> SquiggleMetrics \<Rightarrow> string
     \<Rightarrow> Diagnostic list \<times> SquiggleMetrics" where
  "squiggle_path h st j isWindows currentConfiguration kr curText curTextStartOffset acc curPath =
     (case check_path h st j isWindows currentConfiguration curPath of
        None \<Rightarrow> acc
      | Some pc \<Rightarrow>
          squiggle_matches h kr pc (escape_quotes curPath) curText curTextStartOffset
            (match_all (escape_quotes curPath) curText) 0 acc)"

text \<open>The warning for an IntelliSense mode that does not fit the compiler.\<close>

definition squiggle_mode ::
  "Host \<Rightarrow> bool \<Rightarrow> Configuration \<Rightarrow> string \<Rightarrow> int \<Rightarrow> Diagnostic list \<times> SquiggleMetrics" where
  "squiggle_mode h isWindows currentConfiguration curText curTextStartOffset =
     (if isWindows
      then (let intelliSenseModeStart =
                  search_items (key_items ''intelliSenseMode'' [dquote]) curText
            in if intelliSenseModeStart \<noteq> - 1
               then (let intelliSenseModeValueStart =
                           indexOf curText [dquote] (indexOf curText '':'' intelliSenseModeStart);
                         intelliSenseModeValueEnd =
                           indexOf curText [dquote] (intelliSenseModeValueStart + 1) + 1
                     in if \<not> isCompilerIntelliSenseModeCompatible (extractCompilerPathAndArgs h)
                               currentConfiguration
                        then ([\<lparr>range_start = curTextStartOffset + intelliSenseModeValueStart,
                                range_end = curTextStartOffset + intelliSenseModeValueEnd,
                                diag_message =
                                  IntelliSenseModeIncompatible (intelliSenseMode currentConfiguration)\<rparr>],
                              zero_metrics\<lparr>CompilerModeMismatch := 1\<rparr>)
                        else ([], zero_metrics))
               else ([], zero_metrics))
      else ([], zero_metrics))"

text \<open>All the diagnostics of a window, with their counts.\<close>

definition squiggle_window ::
  "Host \<Rightarrow> CppProperties \<Rightarrow> ConfigurationJson \<Rightarrow> bool \<Rightarrow> Configuration \<Rightarrow> string \<Rightarrow> int
     \<Rightarrow> Diagnostic list \<times> SquiggleMetrics" where
  "squiggle_window h st j isWindows currentConfiguration curText curTextStartOffset =
     foldl (squiggle_path h st j isWindows currentConfiguration (key_ranges curText)
              curText curTextStartOffset)
       (squiggle_mode h isWindows currentConfiguration curText curTextStartOffset)
       (paths_of_interest currentConfiguration)"

section \<open>The squiggle pass\<close>

datatype collection_effect = Untouched | Cleared | SetTo "Diagnostic list"

datatype telemetry_event =
    ConfigSquigglesError string
  | ConfigSquigglesChanged "(string \<times> nat) list"

record SquiggleOutcome =
  collection :: collection_effect
  telemetry :: "telemetry_event list"
  metrics_after :: MetricsObject
  threw :: bool

text \<open>
  The counts that differ from the ones kept. The value kept that is not an object of
  counts has \<open>undefined\<close> for every count, which differs from every number.
\<close>

definition changedSquiggleMetrics :: "slot \<Rightarrow> SquiggleMetrics \<Rightarrow> (string \<times> nat) list" where
  "changedSquiggleMetrics prev new =
     (let differs = (\<lambda>f. case prev of Counts pm \<Rightarrow> f new \<noteq> f pm | _ \<Rightarrow> True)
      in (if differs PathNonExistent then [(''PathNonExistent'', PathNonExistent new)] else []) @
         (if differs PathNotAFile then [(''PathNotAFile'', PathNotAFile new)] else []) @
         (if differs PathNotADirectory then [(''PathNotADirectory'', PathNotADirectory new)] else []) @
         (if differs CompilerPathMissingQuotes
          then [(''CompilerPathMissingQuotes'', CompilerPathMissingQuotes new)] else []) @
         (if differs CompilerModeMismatch
          then [(''CompilerModeMismatch'', CompilerModeMismatch new)] else []))"

definition nothing_done :: "CppProperties \<Rightarrow> SquiggleOutcome" where
  "nothing_done st =
     \<lparr>collection = Untouched, telemetry = [], metrics_after = prevSquiggleMetrics st, threw = False\<rparr>"

text \<open>
  \<open>handleSquiggles\<close>, on the text of the document that is opened. An exception in the
  callback rejects the promise: what was done before it stays done.
\<close>

definition handleSquiggles :: "Host \<Rightarrow> CppProperties \<Rightarrow> string \<Rightarrow> SquiggleOutcome" where
  "handleSquiggles h st text =
     (case propertiesFile st of
        None \<Rightarrow> nothing_done st
      | Some file \<Rightarrow>
     (case configurationJson st of
        None \<Rightarrow> (nothing_done st)\<lparr>threw := True\<rparr>
      | Some j \<Rightarrow>
          if enableConfigurationSquiggles j = Some False
          then (nothing_done st)\<lparr>collection := Cleared\<rparr>
          else if settings_defaultEnableConfigurationSquiggles (settings h) = Some False
          then (nothing_done st)\<lparr>collection := Cleared\<rparr>
          else
            (case JSON_parse h (escapeForSquiggles h text) of
               Document parsed \<Rightarrow>
                 if currentConfigurationIndex st < 0 \<or>
                    int (length (configurations parsed)) \<le> currentConfigurationIndex st
                 then (nothing_done st)\<lparr>threw := True\<rparr>
                 else
                   (let currentConfiguration =
                          configurations parsed ! nat (currentConfigurationIndex st)
                    in if name currentConfiguration = [] then nothing_done st
                       else
                         (case config_window text (name currentConfiguration) of
                            ConfigNameNotFirst \<Rightarrow>
                              (nothing_done st)
                                \<lparr>telemetry := [ConfigSquigglesError ''config name not first'']\<rparr>
                          | NextConfigNameNotFirst \<Rightarrow>
                              (nothing_done st)
                                \<lparr>telemetry := [ConfigSquigglesError ''next config name not first'']\<rparr>
                          | Window curTextStartOffset curText \<Rightarrow>
                              (case (if get_property (prevSquiggleMetrics st) (name currentConfiguration)
                                          = Undefined
                                     then set_property (prevSquiggleMetrics st)
                                            (name currentConfiguration) zero_metrics
                                     else Some (prevSquiggleMetrics st)) of
                                 None \<Rightarrow> (nothing_done st)\<lparr>threw := True\<rparr>
                               | Some prev \<Rightarrow>
                                   (let (diagnostics, newSquiggleMetrics) =
                                          squiggle_window h st j (process_platform h = Win32)
                                            currentConfiguration curText curTextStartOffset;
                                        changed = changedSquiggleMetrics
                                          (get_property prev (name currentConfiguration))
                                          newSquiggleMetrics;
                                        done = \<lparr>collection =
                                                   (if diagnostics \<noteq> [] then SetTo diagnostics
                                                    else Cleared),
                                                 telemetry =
                                                   (if changed \<noteq> []
                                                    then [ConfigSquigglesChanged changed] else []),
                                                 metrics_after = prev, threw = False\<rparr>
                                    in (case set_property prev (name currentConfiguration)
                                               newSquiggleMetrics of
                                          None \<Rightarrow> done\<lparr>threw := True\<rparr>
                                        | Some kept \<Rightarrow> done\<lparr>metrics_after := kept\<rparr>)))))
             | _ \<Rightarrow> (nothing_done st)\<lparr>threw := True\<rparr>)))"

section \<open>The spans of the diagnostics\<close>

text \<open>
  The matches of the pattern as the loop over them sees them: where each one starts in the
  text and how long it is.
\<close>

function match_spans :: "string \<Rightarrow> string \<Rightarrow> nat \<Rightarrow> (nat \<times> nat) list" where
  "match_spans p s k =
     (case first_match p s of
        None \<Rightarrow> []
      | Some (i, n) \<Rightarrow> (k + i, n) # match_spans p (drop (i + n) s) (k + i + n))"
  by pat_completeness auto
termination
proof (relation "measure (\<lambda>(p, s, k). length s)")
  show "wf (measure (\<lambda>(p, s, k). length s))" by simp
next
  fix p s k x2 x y
  assume a: "first_match p s = Some x2" "(x, y) = x2"
  then have "first_match p s = Some (x, y)" by simp
  from first_match_positive [OF this] have "0 < y" .
  moreover from a have "s \<noteq> []" by (cases s) auto
  ultimately show "((p, drop (x + y) s, k + x + y), (p, s, k)) \<in> measure (\<lambda>(p, s, k). length s)"
    by simp
qed

declare match_all.simps [simp del]

declare match_spans.simps [simp del]




section \<open>The description of path resolution\<close>

text \<open>
  What the specification says of \<open>resolvePath\<close>, written down on its own, to be compared
  with the function above: the first occurrence of a token is replaced by the text given;
  on a Windows host \<open>/mnt/\<close> followed by a drive and at least two more characters loses
  the \<open>/mnt/\<close> and gets a colon after the drive, and any other path that starts with
  \<open>/\<close> gets the root file system, when there is one, in the place of that \<open>/\<close>.
\<close>

fun replace_first :: "string \<Rightarrow> string \<Rightarrow> string \<Rightarrow> string" where
  "replace_first tok sub [] = []"
| "replace_first tok sub (c # cs) =
     (if prefix tok (c # cs) then sub @ drop (length tok) (c # cs)
      else c # replace_first tok sub cs)"

fun wsl_described :: "string option \<Rightarrow> string \<Rightarrow> string" where
  "wsl_described fs (s # m # n # t # s' # d # x # y # rest) =
     (if [s, m, n, t, s'] = ''/mnt/'' then d # CHR '':'' # x # y # rest
      else if s = CHR ''/'' \<and> truthy fs then the fs @ (m # n # t # s' # d # x # y # rest)
      else s # m # n # t # s' # d # x # y # rest)"
| "wsl_described fs (s # rest) =
     (if s = CHR ''/'' \<and> truthy fs then the fs @ rest else s # rest)"
| "wsl_described fs [] = []"

definition resolvePath_described ::
  "Host \<Rightarrow> CppProperties \<Rightarrow> ConfigurationJson \<Rightarrow> string option \<Rightarrow> bool \<Rightarrow> string" where
  "resolvePath_described h st j p w =
     (case p of
        None \<Rightarrow> []
      | Some s \<Rightarrow>
          if s = [] \<or> s = ''${default}'' then []
          else
            (let r = resolveVariables h s (ExtendedEnvironment h j);
                 r = replace_first ''${workspaceFolder}'' (rootUri_fsPath h) r;
                 r = replace_first ''${workspaceRoot}'' (rootUri_fsPath h) r;
                 r = (case getVcpkgRoot h of
                        None \<Rightarrow> r
                      | Some v \<Rightarrow> if v = [] then r else replace_first ''${vcpkgRoot}'' v r);
                 r = filter (\<lambda>c. c \<noteq> CHR ''*'') r
             in if w then wsl_described (rootfs st) r else r))"

section \<open>Occurrences of the tokens\<close>

text \<open>
  Notions used to follow an occurrence of a token through \<open>resolvePath\<close>: a token starts
  with its only \<open>$\<close>; a text holds an occurrence of \<open>tok\<close> after a block \<open>m\<close>; two
  texts never overlap in a text that holds both; and what is kept of a later occurrence
  once the first one has been replaced (on a Windows host, with a colon or a backslash of
  the replacement before it).
\<close>

definition headed :: "string \<Rightarrow> bool" where
  "headed t \<longleftrightarrow> (\<exists>body. t = CHR ''$'' # body \<and> CHR ''$'' \<notin> set body)"

definition blocked :: "string \<Rightarrow> string \<Rightarrow> string \<Rightarrow> bool" where
  "blocked m tok s \<longleftrightarrow> (\<exists>x y. s = x @ m @ y \<and> sublist tok y)"

definition apart :: "string \<Rightarrow> string \<Rightarrow> bool" where
  "apart m t \<longleftrightarrow>
     (\<forall>x y a b. x @ m @ y = a @ t @ b \<longrightarrow> (\<exists>w. a = x @ m @ w) \<or> (\<exists>w. x = a @ t @ w))"

definition kept :: "bool \<Rightarrow> string \<Rightarrow> string \<Rightarrow> bool" where
  "kept w tok r \<longleftrightarrow>
     (if w then \<exists>c. (c = CHR '':'' \<or> c = CHR 0x5C) \<and> blocked [c] tok r else sublist tok r)"

text \<open>
  The three replacements of \<open>resolvePath\<close> taken one at a time, in the order of the code:
  each token with the text that takes its place (none for \<open>${vcpkgRoot}\<close> when the vcpkg
  root is not known), the replacement of one token, and the replacements of a list of
  them, one after the other.
\<close>

definition token_steps :: "Host \<Rightarrow> (string \<times> string option) list" where
  "token_steps h =
     [(''${workspaceFolder}'', Some (rootUri_fsPath h)),
      (''${workspaceRoot}'', Some (rootUri_fsPath h)),
      (''${vcpkgRoot}'', if truthy (getVcpkgRoot h) then getVcpkgRoot h else None)]"

definition token_step :: "string \<times> string option \<Rightarrow> string \<Rightarrow> string" where
  "token_step s result =
     (case snd s of
        None \<Rightarrow> result
      | Some sub \<Rightarrow> if sublist (fst s) result then replace_js result (fst s) sub else result)"

fun replace_each :: "(string \<times> string option) list \<Rightarrow> string \<Rightarrow> string" where
  "replace_each [] result = result"
| "replace_each (s # ss) result = replace_each ss (token_step s result)"

section \<open>Sample hosts and documents\<close>

text \<open>
  Concrete inputs on which the theorems below are run: the configuration
  \<open>{ name: n }\<close> that \<open>onAddConfigRequested\<close> starts from, documents of such
  configurations, a host without user settings, and a parser that knows a few texts.
\<close>

definition new_configuration :: "string \<Rightarrow> Configuration" where
  "new_configuration n =
     \<lparr>name = n, compilerPath = None, knownCompilers = None, cStandard = None, cppStandard = None,
      includePath = None, macFrameworkPath = None, windowsSdkVersion = None, defines_list = None,
      intelliSenseMode = None, compileCommands = None, forcedInclude = None,
      configurationProvider = None, browse = None\<rparr>"

definition document_of :: "string list \<Rightarrow> int option \<Rightarrow> ConfigurationJson" where
  "document_of names v =
     \<lparr>configurations = map new_configuration names, env = None, version = v,
      enableConfigurationSquiggles = None\<rparr>"

definition no_settings :: CppSettings where
  "no_settings =
     \<lparr>settings_defaultIntelliSenseMode = None, settings_defaultCompilerPath = None,
      settings_defaultCStandard = None, settings_defaultCppStandard = None,
      settings_defaultEnableConfigurationSquiggles = None\<rparr>"

definition sample_parse :: "string \<Rightarrow> json_parse_result" where
  \<open>sample_parse t =
     (if t = ''{"configurations":[{"name":"C"},{"name":"D"}],"version":4}''
      then Document (document_of [''C'', ''D''] (Some 4))
      else if t = ''{"configurations":[{"name":"B"},{"name":"A"}],"version":7}''
      then Document (document_of [''B'', ''A''] (Some 7))
      else if t = ''{"configurations":[]}'' then Document (document_of [] None)
      else if t = ''{}'' then NoConfigurations
      else if t = ''null'' then Falsy
      else SyntaxError)\<close>

text \<open>
  A stand-in for \<open>util.extractCompilerPathAndArgs\<close>, used to run the compatibility check:
  it takes the part after the last \<open>/\<close> as the name of the compiler.
\<close>

definition last_component :: "string \<Rightarrow> CompilerPathAndArgs" where
  "last_component p =
     \<lparr>cpa_compilerPath = p, compilerName = last (split_js CHR ''/'' p), additionalArgs = None\<rparr>"

definition no_files :: "string \<Rightarrow> bool" where
  "no_files p = False"

definition unchanged :: "string \<Rightarrow> Environment \<Rightarrow> string" where
  "unchanged s e = s"

definition linux_host :: Host where
  "linux_host =
     \<lparr>process_platform = OtherPlatform, settings = no_settings, JSON_parse = sample_parse,
      checkId = id, file_writable = True, rootUri_fsPath = ''/proj'',
      path_basename = last \<circ> split_js CHR ''/'', path_sep = CHR ''/'', getVcpkgRoot = None,
      resolveVariables = unchanged, extractCompilerPathAndArgs = last_component,
      escapeForSquiggles = id, existsSync = no_files, checkFileExistsSync = no_files,
      checkDirectoryExistsSync = no_files\<rparr>"

definition windows_host :: Host where
  "windows_host =
     linux_host\<lparr>process_platform := Win32, rootUri_fsPath := ''C:/proj'', path_sep := CHR 0x5C\<rparr>"

definition loaded :: "string list \<Rightarrow> int \<Rightarrow> bool \<Rightarrow> CppProperties" where
  "loaded names i incomplete =
     \<lparr>configurationJson = Some (document_of names (Some 4)), currentConfigurationIndex = i,
      configurationIncomplete = incomplete, defaultCompilerPath = None, defaultCStandard = None,
      defaultCppStandard = None, rootfs = None,
      propertiesFile = Some ''/proj/.vscode/c_cpp_properties.json'',
      prevSquiggleMetrics = new_Map\<rparr>"

text \<open>
  A document with a path that is not there, once alone and twice in one string, a document
  with a configuration named \<open>size\<close>, and a host whose parser knows the two texts.
\<close>

definition nope_document :: ConfigurationJson where
  "nope_document =
     \<lparr>configurations =
        [(new_configuration ''Linux'')\<lparr>includePath := Some [''/nope'', ''/nope;/nope'']\<rparr>],
      env = None, version = Some 4, enableConfigurationSquiggles = None\<rparr>"

definition nope_text :: string where
  \<open>nope_text =
     ''{"configurations":[{"name":"Linux","includePath":["/nope","/nope;/nope"]}],"version":4}''\<close>

definition size_text :: string where
  \<open>size_text = ''{"configurations":[{"name":"size"}],"version":4}''\<close>

definition squiggle_parse :: "string \<Rightarrow> json_parse_result" where
  "squiggle_parse t = (if t = nope_text then Document nope_document
               else if t = size_text then Document (document_of [''size''] (Some 4))
               else SyntaxError)"

definition squiggle_host :: Host where
  "squiggle_host = linux_host\<lparr>JSON_parse := squiggle_parse\<rparr>"

section \<open>Properties\<close>

subsection \<open>Lists\<close>

lemma foldl_append_acc:
  "foldl (\<lambda>r e. r @ f e) acc xs = acc @ concat (map f xs)"
  by (induction xs arbitrary: acc) simp_all

lemma resolveDefaults_concat:
  "resolveDefaults entries d =
     concat (map (\<lambda>e. if e = default_token then (case d of None \<Rightarrow> [] | Some ds \<Rightarrow> ds) else [e])
                 entries)"
proof -
  have "resolveDefaults entries d =
          foldl (\<lambda>r e. r @ (if e = default_token then (case d of None \<Rightarrow> [] | Some ds \<Rightarrow> ds) else [e]))
                [] entries"
    unfolding resolveDefaults_def
    by (rule arg_cong [where f = "\<lambda>f. foldl f [] entries"])
       (cases d; simp add: fun_eq_iff)
  then show ?thesis
    by (simp add: foldl_append_acc)
qed

lemma resolveAndSplit_concat:
  "resolveAndSplit rv (Some vs) d environment =
     concat (map (\<lambda>e. filter (\<lambda>f. f \<noteq> []) (split_js CHR '';'' (rv e environment)))
                 (resolveDefaults vs d))"
  by (simp add: resolveAndSplit_def foldl_append_acc)

text \<open>
  C2. List resolution puts the whole default list in the place of every element equal to
  \<open>${default}\<close> (nothing when the default is null), substitutes the variables in the
  elements of the list so obtained, splits every resolved string at \<open>;\<close>, drops the empty
  fragments and concatenates the fragments in order. For a substitution that leaves
  \<open>a\<close>, \<open>b\<close>, \<open>x;y\<close> and \<open>z\<close> as they are under the empty environment, the three examples of
  the specification come out.
\<close>

theorem resolveAndSplit_spec:
  assumes "\<forall>s \<in> {''a'', ''b'', ''x;y'', ''z''}. rv s [] = s"
  shows "resolveAndSplit rv (Some vs) d environment =
           concat (map (\<lambda>e. filter (\<lambda>f. f \<noteq> []) (split_js CHR '';'' (rv e environment)))
             (concat (map (\<lambda>e. if e = ''${default}''
                                then (case d of None \<Rightarrow> [] | Some ds \<Rightarrow> ds) else [e]) vs)))
         \<and> resolveAndSplit rv None d environment = []
         \<and> resolveAndSplit rv (Some [''${default}'']) (Some [''a'', ''b'']) [] = [''a'', ''b'']
         \<and> resolveAndSplit rv (Some [''${default}'']) (Some []) [] = []
         \<and> resolveAndSplit rv (Some [''${default}'']) None [] = []
         \<and> resolveAndSplit rv (Some [''x;y'', ''${default}'']) (Some [''z'']) [] = [''x'', ''y'', ''z'']"
proof -
  have a: "rv ''a'' [] = ''a''" and b: "rv ''b'' [] = ''b''"
    and xy: "rv ''x;y'' [] = ''x;y''" and z: "rv ''z'' [] = ''z''"
    using assms by simp_all
  have g: "resolveAndSplit rv (Some vs) d environment =
           concat (map (\<lambda>e. filter (\<lambda>f. f \<noteq> []) (split_js CHR '';'' (rv e environment)))
             (concat (map (\<lambda>e. if e = ''${default}''
                                then (case d of None \<Rightarrow> [] | Some ds \<Rightarrow> ds) else [e]) vs)))"
    by (simp add: resolveAndSplit_concat resolveDefaults_concat default_token_def)
  have n: "resolveAndSplit rv None d environment = []"
    by (simp add: resolveAndSplit_def)
  have e1: "resolveAndSplit rv (Some [''${default}'']) (Some [''a'', ''b'']) [] = [''a'', ''b'']"
    by (simp add: resolveAndSplit_concat resolveDefaults_concat default_token_def a b)
  have e2: "resolveAndSplit rv (Some [''${default}'']) (Some []) [] = []"
    by (simp add: resolveAndSplit_concat resolveDefaults_concat default_token_def)
  have e3: "resolveAndSplit rv (Some [''${default}'']) None [] = []"
    by (simp add: resolveAndSplit_concat resolveDefaults_concat default_token_def)
  have e4: "resolveAndSplit rv (Some [''x;y'', ''${default}'']) (Some [''z'']) [] = [''x'', ''y'', ''z'']"
    by (simp add: resolveAndSplit_concat resolveDefaults_concat default_token_def xy z)
  from g n e1 e2 e3 e4 show ?thesis by blast
qed

theorem resolveAndSplit_spec_witness:
  "resolveAndSplit (\<lambda>s e. s) (Some [''x;y'', ''${default}'']) (Some [''z'']) [] = [''x'', ''y'', ''z'']
   \<and> resolveAndSplit (\<lambda>s e. s) (Some [''p;;q'', ''${default}'', ''r'']) (Some [''d1;d2'']) []
       = [''p'', ''q'', ''d1'', ''d2'', ''r'']"
proof -
  have h: "\<forall>s \<in> {''a'', ''b'', ''x;y'', ''z''}. (\<lambda>s (e::Environment). s) s [] = s"
    by simp
  have g: "resolveAndSplit (\<lambda>s e. s) (Some [''p;;q'', ''${default}'', ''r'']) (Some [''d1;d2'']) []
       = [''p'', ''q'', ''d1'', ''d2'', ''r'']"
    using resolveAndSplit_spec [OF h, of "[''p;;q'', ''${default}'', ''r'']" "Some [''d1;d2'']" "[]"]
    by simp
  from resolveAndSplit_spec [OF h, of "[]" None "[]"] g show ?thesis by simp
qed

subsection \<open>Loading\<close>

lemma first_named_Some:
  "first_named n k cs = Some r \<longleftrightarrow>
     (\<exists>i < length cs. r = k + i \<and> name (cs ! i) = n \<and> (\<forall>j < i. name (cs ! j) \<noteq> n))"
proof (induction cs arbitrary: k)
  case Nil
  then show ?case by simp
next
  case (Cons c cs)
  show ?case
  proof (cases "name c = n")
    case True
    have "i = 0" if "\<forall>j < i. name ((c # cs) ! j) \<noteq> n" for i
    proof (rule ccontr)
      assume "i \<noteq> 0"
      then have "0 < i" by simp
      with that have "name ((c # cs) ! 0) \<noteq> n" by blast
      with True show False by simp
    qed
    with True show ?thesis by auto
  next
    case False
    have "(\<exists>i < length (c # cs). r = k + i \<and> name ((c # cs) ! i) = n \<and> (\<forall>j < i. name ((c # cs) ! j) \<noteq> n))
          \<longleftrightarrow> (\<exists>i < length cs. r = Suc k + i \<and> name (cs ! i) = n \<and> (\<forall>j < i. name (cs ! j) \<noteq> n))"
      (is "?L \<longleftrightarrow> ?R")
    proof
      assume ?L
      then obtain i where i: "i < length (c # cs)" "r = k + i" "name ((c # cs) ! i) = n"
        "\<forall>j < i. name ((c # cs) ! j) \<noteq> n" by blast
      with False obtain i' where i': "i = Suc i'" by (cases i) auto
      have "\<forall>j < i'. name (cs ! j) \<noteq> n"
      proof (intro allI impI)
        fix j assume "j < i'"
        then have "Suc j < i" using i' by simp
        with i(4) have "name ((c # cs) ! Suc j) \<noteq> n" by blast
        then show "name (cs ! j) \<noteq> n" by simp
      qed
      with i i' show ?R by (intro exI [where x = i']) auto
    next
      assume ?R
      then obtain i where i: "i < length cs" "r = Suc k + i" "name (cs ! i) = n"
        "\<forall>j < i. name (cs ! j) \<noteq> n" by blast
      have "\<forall>j < Suc i. name ((c # cs) ! j) \<noteq> n"
      proof (intro allI impI)
        fix j assume "j < Suc i"
        then show "name ((c # cs) ! j) \<noteq> n"
          using False i(4) by (cases j) auto
      qed
      with i show ?L by (intro exI [where x = "Suc i"]) auto
    qed
    with False Cons.IH [of "Suc k"] show ?thesis by simp
  qed
qed

lemma first_named_None:
  "first_named n k cs = None \<longleftrightarrow> (\<forall>c \<in> set cs. name c \<noteq> n)"
  by (induction cs arbitrary: k) auto

lemma first_named_bound:
  "first_named n 0 cs = Some r \<Longrightarrow> r < length cs"
  by (auto simp: first_named_Some)

lemma first_named_unique:
  assumes "i < length cs" "name (cs ! i) = n" "\<forall>j < i. name (cs ! j) \<noteq> n"
  shows "first_named n 0 cs = Some i"
  using assms by (simp add: first_named_Some)


lemma migrate_version_version:
  "version (snd (snd (migrate_version h st j))) = Some 4"
  by (simp add: migrate_version_def Let_def configVersion_def updateToVersion4_def)

lemma migrate_version_length:
  "length (configurations (snd (snd (migrate_version h st j)))) = length (configurations j)"
  by (simp add: migrate_version_def Let_def updateToVersion4_def updateToVersion3_def updateToVersion2_def)

lemma parse_document_state:
  assumes "JSON_parse h t = Document newJson" "t \<noteq> []" "configurations newJson \<noteq> []"
  shows "\<exists>j. configurationJson (state (parsePropertiesFile h st (Some t))) = Some j
            \<and> version j = Some 4
            \<and> length (configurations j) = length (configurations newJson)"
    and "currentConfigurationIndex (state (parsePropertiesFile h st (Some t))) =
           (if same_configuration_index st newJson < 0 \<or>
               int (length (configurations newJson)) \<le> same_configuration_index st newJson
            then getConfigIndexForPlatform h newJson else same_configuration_index st newJson)"
  using assms
  by (auto simp add: parsePropertiesFile_def Let_def case_prod_beta migrate_version_version
        migrate_version_length)

lemma parse_success_cases:
  assumes "success (parsePropertiesFile h st r) = Some True"
  shows "\<exists>t newJson. r = Some t \<and> t \<noteq> [] \<and> JSON_parse h t = Document newJson \<and> configurations newJson \<noteq> []"
  using assms
  by (auto simp: parsePropertiesFile_def parse_failed_def split: option.splits if_splits json_parse_result.splits)

text \<open>
  C3. Whenever the load succeeds, the document held afterwards has the version field 4,
  whatever the version in the input was (absent, a known one or an unknown one).
\<close>

theorem version_after_load:
  assumes "success (parsePropertiesFile h st r) = Some True"
  shows "\<exists>j. configurationJson (state (parsePropertiesFile h st r)) = Some j \<and> version j = Some 4"
proof -
  from parse_success_cases [OF assms] obtain t newJson where
    "r = Some t" "t \<noteq> []" "JSON_parse h t = Document newJson" "configurations newJson \<noteq> []"
    by blast
  with parse_document_state(1) [of h t newJson st] show ?thesis by blast
qed

theorem version_after_load_witness:
  \<open>success (parsePropertiesFile linux_host (loaded [''A'', ''B''] 1 True)
            (Some ''{"configurations":[{"name":"B"},{"name":"A"}],"version":7}'')) = Some True
   \<and> map_option version (configurationJson (state (parsePropertiesFile linux_host (loaded [''A'', ''B''] 1 True)
            (Some ''{"configurations":[{"name":"B"},{"name":"A"}],"version":7}''))))
       = Some (Some 4)\<close>
proof -
  have h: \<open>success (parsePropertiesFile linux_host (loaded [''A'', ''B''] 1 True)
            (Some ''{"configurations":[{"name":"B"},{"name":"A"}],"version":7}'')) = Some True\<close>
    by (simp add: parsePropertiesFile_def linux_host_def sample_parse_def document_of_def
          migrate_version_def configVersion_def Let_def updateToVersion2_def)
  from version_after_load [OF h] h show ?thesis by auto
qed

text \<open>
  C4. When the file cannot be read, the text is empty, the text is not JSON, or it parses
  to a value without configurations or with an empty array of them, the load does not
  report success and the state held before, the document with it, is unchanged; no
  diagnostics are requested.
\<close>

theorem failed_load_keeps_document:
  assumes "r = None \<or> r = Some [] \<or>
           (\<exists>t. r = Some t \<and>
              (JSON_parse h t = SyntaxError \<or> JSON_parse h t = Falsy \<or>
               JSON_parse h t = NoConfigurations \<or>
               (\<exists>j. JSON_parse h t = Document j \<and> configurations j = [])))"
  shows "success (parsePropertiesFile h st r) \<noteq> Some True
         \<and> state (parsePropertiesFile h st r) = st
         \<and> \<not> squiggles_requested (parsePropertiesFile h st r)"
proof -
  have none: "parsePropertiesFile h st None = parse_failed st"
    by (simp add: parsePropertiesFile_def)
  have empty: "parsePropertiesFile h st (Some []) =
      \<lparr>success = None, state = st, shown = [], squiggles_requested = False\<rparr>"
    by (simp add: parsePropertiesFile_def)
  have bad: "parsePropertiesFile h st (Some t) = parse_failed st"
    if "t \<noteq> []"
       "JSON_parse h t = SyntaxError \<or> JSON_parse h t = Falsy \<or> JSON_parse h t = NoConfigurations \<or>
        (\<exists>j. JSON_parse h t = Document j \<and> configurations j = [])" for t
    using that by (auto simp: parsePropertiesFile_def)
  from assms consider "r = None" | "r = Some []"
    | t where "r = Some t" "t \<noteq> []"
       "JSON_parse h t = SyntaxError \<or> JSON_parse h t = Falsy \<or> JSON_parse h t = NoConfigurations \<or>
        (\<exists>j. JSON_parse h t = Document j \<and> configurations j = [])"
    by blast
  then show ?thesis
  proof cases
    case 1
    with none show ?thesis by (simp add: parse_failed_def)
  next
    case 2
    with empty show ?thesis by simp
  next
    case 3
    with bad [of t] show ?thesis by (simp add: parse_failed_def)
  qed
qed

theorem failed_load_keeps_document_witness:
  "success (parsePropertiesFile linux_host (loaded [''A'', ''B''] 1 False) (Some ''{}'')) \<noteq> Some True
   \<and> state (parsePropertiesFile linux_host (loaded [''A'', ''B''] 1 False) (Some ''{}''))
       = loaded [''A'', ''B''] 1 False
   \<and> state (parsePropertiesFile linux_host (loaded [''A'', ''B''] 1 False) (Some []))
       = loaded [''A'', ''B''] 1 False"
proof -
  have h: "JSON_parse linux_host ''{}'' = NoConfigurations"
    by (simp add: linux_host_def sample_parse_def)
  from failed_load_keeps_document [of "Some ''{}''" linux_host "loaded [''A'', ''B''] 1 False"]
       failed_load_keeps_document [of "Some []" linux_host "loaded [''A'', ''B''] 1 False"] h
  show ?thesis by simp
qed

lemma getConfigIndexForPlatform_range:
  assumes "configurations j \<noteq> []"
  shows "0 \<le> getConfigIndexForPlatform h j \<and> getConfigIndexForPlatform h j < int (length (configurations j))"
proof (cases "first_named (platform_name (process_platform h)) 0 (configurations j)")
  case None
  with assms show ?thesis by (simp add: getConfigIndexForPlatform_def)
next
  case (Some i)
  from first_named_bound [OF this] Some show ?thesis
    by (simp add: getConfigIndexForPlatform_def)
qed

lemma same_configuration_index_cases:
  assumes "configurationJson st = Some old"
    and "0 \<le> currentConfigurationIndex st"
    and "currentConfigurationIndex st < int (length (configurations old))"
  shows "same_configuration_index st newJson =
           (if configurationIncomplete st then currentConfigurationIndex st
            else (case first_named (name (configurations old ! nat (currentConfigurationIndex st))) 0
                         (configurations newJson) of
                    Some i \<Rightarrow> int i | None \<Rightarrow> currentConfigurationIndex st))"
  using assms by (simp add: same_configuration_index_def)

text \<open>
  C5, as stated, fails: with the complete document \<open>[A, B]\<close> held and \<open>A\<close> selected, a
  new document \<open>[C, D]\<close> keeps index 0 although no configuration is named \<open>A\<close> and the
  platform-preferred index is 1; and while the configuration is incomplete the names are
  not compared at all: with \<open>[A, B]\<close> held and \<open>B\<close> selected, the new document
  \<open>[B, A]\<close> keeps index 1, although \<open>B\<close> is now at index 0.
\<close>

theorem selection_fallback_counterexample:
  \<open>sample_parse ''{"configurations":[{"name":"C"},{"name":"D"}],"version":4}''
      = Document (document_of [''C'', ''D''] (Some 4))
   \<and> currentConfigurationIndex (state (parsePropertiesFile linux_host (loaded [''A'', ''B''] 0 False)
          (Some ''{"configurations":[{"name":"C"},{"name":"D"}],"version":4}''))) = 0
   \<and> getConfigIndexForPlatform linux_host (document_of [''C'', ''D''] (Some 4)) = 1
   \<and> sample_parse ''{"configurations":[{"name":"B"},{"name":"A"}],"version":7}''
      = Document (document_of [''B'', ''A''] (Some 7))
   \<and> currentConfigurationIndex (state (parsePropertiesFile linux_host (loaded [''A'', ''B''] 1 True)
          (Some ''{"configurations":[{"name":"B"},{"name":"A"}],"version":7}''))) = 1\<close>
  by (simp add: parsePropertiesFile_def linux_host_def sample_parse_def document_of_def
        new_configuration_def loaded_def same_configuration_index_def migrate_version_def
        configVersion_def Let_def getConfigIndexForPlatform_def platform_name_def)

text \<open>
  C5, amended. After a load that replaces the document, with a configuration selected
  before: when the configuration is complete, the new index is that of the first
  configuration of the new list with the name of the one selected before; when there is
  none, or the configuration is incomplete, the index held is kept if it is below the
  new length, and otherwise the platform-preferred index is taken (the first
  configuration named as the platform, else the last one). In every case the new index is
  within the new list.
\<close>

theorem selection_after_load:
  assumes doc: "JSON_parse h t = Document newJson" "t \<noteq> []" "configurations newJson \<noteq> []"
    and old: "configurationJson st = Some old"
    and sel: "0 \<le> currentConfigurationIndex st"
             "currentConfigurationIndex st < int (length (configurations old))"
  shows
    "let n = name (configurations old ! nat (currentConfigurationIndex st));
         cs = configurations newJson;
         cur = currentConfigurationIndex st;
         idx = currentConfigurationIndex (state (parsePropertiesFile h st (Some t)));
         pn = platform_name (process_platform h);
         matched = (\<not> configurationIncomplete st \<and> (\<exists>c \<in> set cs. name c = n))
     in (\<forall>i. \<not> configurationIncomplete st \<and> i < length cs \<and> name (cs ! i) = n \<and>
              (\<forall>k < i. name (cs ! k) \<noteq> n) \<longrightarrow> idx = int i)
      \<and> (\<not> matched \<and> cur < int (length cs) \<longrightarrow> idx = cur)
      \<and> (\<not> matched \<and> int (length cs) \<le> cur \<longrightarrow>
            (\<forall>p. p < length cs \<and> name (cs ! p) = pn \<and> (\<forall>k < p. name (cs ! k) \<noteq> pn) \<longrightarrow> idx = int p)
          \<and> ((\<forall>c \<in> set cs. name c \<noteq> pn) \<longrightarrow> idx = int (length cs) - 1))
      \<and> 0 \<le> idx \<and> idx < int (length cs)"
proof -
  define n where "n = name (configurations old ! nat (currentConfigurationIndex st))"
  define cs where "cs = configurations newJson"
  define cur where "cur = currentConfigurationIndex st"
  define idx where "idx = currentConfigurationIndex (state (parsePropertiesFile h st (Some t)))"
  define pn where "pn = platform_name (process_platform h)"
  define s where "s = same_configuration_index st newJson"
  have s_eq: "s = (if configurationIncomplete st then cur
                   else (case first_named n 0 cs of Some i \<Rightarrow> int i | None \<Rightarrow> cur))"
    unfolding s_def n_def cs_def cur_def
    by (rule same_configuration_index_cases [OF old sel])
  have idx_eq: "idx = (if s < 0 \<or> int (length cs) \<le> s then getConfigIndexForPlatform h newJson else s)"
    unfolding idx_def s_def cs_def by (rule parse_document_state(2) [OF doc])
  have plat: "0 \<le> getConfigIndexForPlatform h newJson \<and>
              getConfigIndexForPlatform h newJson < int (length cs)"
    unfolding cs_def by (rule getConfigIndexForPlatform_range [OF doc(3)])
  have a: "idx = int i"
    if "\<not> configurationIncomplete st" "i < length cs" "name (cs ! i) = n" "\<forall>k < i. name (cs ! k) \<noteq> n"
    for i
  proof -
    from that have "first_named n 0 cs = Some i" by (simp add: first_named_unique)
    with that s_eq have "s = int i" by simp
    with that idx_eq show ?thesis by simp
  qed
  have nomatch: "s = cur" if "\<not> (\<not> configurationIncomplete st \<and> (\<exists>c \<in> set cs. name c = n))"
  proof (cases "configurationIncomplete st")
    case True
    with s_eq show ?thesis by simp
  next
    case False
    with that have "\<forall>c \<in> set cs. name c \<noteq> n" by blast
    then have "first_named n 0 cs = None" by (simp add: first_named_None)
    with False s_eq show ?thesis by simp
  qed
  have b: "idx = cur"
    if "\<not> (\<not> configurationIncomplete st \<and> (\<exists>c \<in> set cs. name c = n))" "cur < int (length cs)"
    using nomatch [OF that(1)] that(2) sel(1) idx_eq by (simp add: cur_def)
  have c0: "idx = getConfigIndexForPlatform h newJson"
    if "\<not> (\<not> configurationIncomplete st \<and> (\<exists>c \<in> set cs. name c = n))" "int (length cs) \<le> cur"
    using nomatch [OF that(1)] that(2) idx_eq by simp
  have c1: "getConfigIndexForPlatform h newJson = int p"
    if "p < length cs" "name (cs ! p) = pn" "\<forall>k < p. name (cs ! k) \<noteq> pn" for p
  proof -
    from that have "first_named pn 0 cs = Some p" by (simp add: first_named_unique)
    then show ?thesis by (simp add: getConfigIndexForPlatform_def pn_def cs_def)
  qed
  have c2: "getConfigIndexForPlatform h newJson = int (length cs) - 1"
    if "\<forall>c \<in> set cs. name c \<noteq> pn"
  proof -
    from that have "first_named pn 0 cs = None" by (simp add: first_named_None)
    then show ?thesis by (simp add: getConfigIndexForPlatform_def pn_def cs_def)
  qed
  have d: "0 \<le> idx \<and> idx < int (length cs)"
    using idx_eq plat by auto
  have "(\<forall>i. \<not> configurationIncomplete st \<and> i < length cs \<and> name (cs ! i) = n \<and>
              (\<forall>k < i. name (cs ! k) \<noteq> n) \<longrightarrow> idx = int i)
      \<and> (\<not> (\<not> configurationIncomplete st \<and> (\<exists>c \<in> set cs. name c = n)) \<and> cur < int (length cs) \<longrightarrow> idx = cur)
      \<and> (\<not> (\<not> configurationIncomplete st \<and> (\<exists>c \<in> set cs. name c = n)) \<and> int (length cs) \<le> cur \<longrightarrow>
            (\<forall>p. p < length cs \<and> name (cs ! p) = pn \<and> (\<forall>k < p. name (cs ! k) \<noteq> pn) \<longrightarrow> idx = int p)
          \<and> ((\<forall>c \<in> set cs. name c \<noteq> pn) \<longrightarrow> idx = int (length cs) - 1))
      \<and> 0 \<le> idx \<and> idx < int (length cs)"
  proof (intro conjI allI impI)
    fix i assume "\<not> configurationIncomplete st \<and> i < length cs \<and> name (cs ! i) = n \<and>
              (\<forall>k < i. name (cs ! k) \<noteq> n)"
    then show "idx = int i" using a by blast
  next
    assume "\<not> (\<not> configurationIncomplete st \<and> (\<exists>c \<in> set cs. name c = n)) \<and> cur < int (length cs)"
    then show "idx = cur" using b by blast
  next
    fix p
    assume h1: "\<not> (\<not> configurationIncomplete st \<and> (\<exists>c \<in> set cs. name c = n)) \<and> int (length cs) \<le> cur"
      and h2: "p < length cs \<and> name (cs ! p) = pn \<and> (\<forall>k < p. name (cs ! k) \<noteq> pn)"
    from h1 have "idx = getConfigIndexForPlatform h newJson" using c0 by blast
    with h2 show "idx = int p" using c1 by simp
  next
    assume h1: "\<not> (\<not> configurationIncomplete st \<and> (\<exists>c \<in> set cs. name c = n)) \<and> int (length cs) \<le> cur"
      and h2: "\<forall>c \<in> set cs. name c \<noteq> pn"
    from h1 have "idx = getConfigIndexForPlatform h newJson" using c0 by blast
    with h2 show "idx = int (length cs) - 1" using c2 by simp
  next
    show "0 \<le> idx" using d by simp
  next
    show "idx < int (length cs)" using d by simp
  qed
  then show ?thesis
    unfolding Let_def n_def cs_def cur_def idx_def pn_def .
qed



theorem selection_after_load_witness:
  \<open>currentConfigurationIndex (state (parsePropertiesFile linux_host (loaded [''A'', ''B''] 1 False)
          (Some ''{"configurations":[{"name":"B"},{"name":"A"}],"version":7}''))) = 0\<close>
proof -
  have doc: \<open>JSON_parse linux_host ''{"configurations":[{"name":"B"},{"name":"A"}],"version":7}''
               = Document (document_of [''B'', ''A''] (Some 7))\<close>
    by (simp add: linux_host_def sample_parse_def)
  have ne: \<open>''{"configurations":[{"name":"B"},{"name":"A"}],"version":7}'' \<noteq> []\<close>
    by simp
  have cs: "configurations (document_of [''B'', ''A''] (Some 7)) \<noteq> []"
    by (simp add: document_of_def)
  have old: "configurationJson (loaded [''A'', ''B''] 1 False) = Some (document_of [''A'', ''B''] (Some 4))"
    by (simp add: loaded_def)
  have s1: "0 \<le> currentConfigurationIndex (loaded [''A'', ''B''] 1 False)"
    by (simp add: loaded_def)
  have s2: "currentConfigurationIndex (loaded [''A'', ''B''] 1 False)
              < int (length (configurations (document_of [''A'', ''B''] (Some 4))))"
    by (simp add: loaded_def document_of_def)
  note T = selection_after_load [OF doc ne cs old s1 s2, unfolded Let_def, THEN conjunct1, rule_format, of 0]
  show ?thesis
    by (rule T [simplified]) (simp add: loaded_def document_of_def new_configuration_def)
qed

subsection \<open>Compiler and IntelliSense mode\<close>

text \<open>
  C7. The check returns true whenever \<open>compilerPath\<close> or \<open>intelliSenseMode\<close> is unset,
  empty or \<open>${default}\<close>. When both are set to other values it returns false exactly
  when one but not both of these hold: the extracted compiler name is \<open>cl.exe\<close>, the mode
  is \<open>msvc-x64\<close>. So a path whose extracted name is \<open>cl.exe\<close> is incompatible with
  \<open>gcc-x64\<close> and compatible with \<open>msvc-x64\<close>.
\<close>

theorem compiler_mode_compatibility:
  "((compilerPath c = None \<or> compilerPath c = Some [] \<or> compilerPath c = Some ''${default}'' \<or>
     intelliSenseMode c = None \<or> intelliSenseMode c = Some [] \<or> intelliSenseMode c = Some ''${default}'')
      \<longrightarrow> isCompilerIntelliSenseModeCompatible extract c)
   \<and> (compilerPath c = Some p \<and> p \<noteq> [] \<and> p \<noteq> ''${default}'' \<and>
       intelliSenseMode c = Some m \<and> m \<noteq> [] \<and> m \<noteq> ''${default}''
      \<longrightarrow> (\<not> isCompilerIntelliSenseModeCompatible extract c)
            = ((compilerName (extract p) = ''cl.exe'') \<noteq> (m = ''msvc-x64'')))
   \<and> (compilerName (extract q) = ''cl.exe'' \<and> q \<noteq> [] \<and> q \<noteq> ''${default}''
      \<longrightarrow> \<not> isCompilerIntelliSenseModeCompatible extract
               (c\<lparr>compilerPath := Some q, intelliSenseMode := Some ''gcc-x64''\<rparr>)
          \<and> isCompilerIntelliSenseModeCompatible extract
               (c\<lparr>compilerPath := Some q, intelliSenseMode := Some ''msvc-x64''\<rparr>))"
proof -
  have a: "isCompilerIntelliSenseModeCompatible extract c"
    if "compilerPath c = None \<or> compilerPath c = Some [] \<or> compilerPath c = Some ''${default}'' \<or>
     intelliSenseMode c = None \<or> intelliSenseMode c = Some [] \<or> intelliSenseMode c = Some ''${default}''"
    using that unfolding isCompilerIntelliSenseModeCompatible_def default_token_def
    by (simp only: if_True)
  have b: "(\<not> isCompilerIntelliSenseModeCompatible extract c)
            = ((compilerName (extract p) = ''cl.exe'') \<noteq> (m = ''msvc-x64''))"
    if "compilerPath c = Some p \<and> p \<noteq> [] \<and> p \<noteq> ''${default}'' \<and>
       intelliSenseMode c = Some m \<and> m \<noteq> [] \<and> m \<noteq> ''${default}''"
    using that by (simp add: isCompilerIntelliSenseModeCompatible_def default_token_def)
  have c: "\<not> isCompilerIntelliSenseModeCompatible extract
               (c\<lparr>compilerPath := Some q, intelliSenseMode := Some ''gcc-x64''\<rparr>)
          \<and> isCompilerIntelliSenseModeCompatible extract
               (c\<lparr>compilerPath := Some q, intelliSenseMode := Some ''msvc-x64''\<rparr>)"
    if "compilerName (extract q) = ''cl.exe'' \<and> q \<noteq> [] \<and> q \<noteq> ''${default}''"
    using that by (simp add: isCompilerIntelliSenseModeCompatible_def default_token_def)
  from a b c show ?thesis by blast
qed

theorem compiler_mode_compatibility_witness:
  "\<not> isCompilerIntelliSenseModeCompatible last_component
       ((new_configuration ''Win32'')\<lparr>compilerPath := Some ''C:/VS/bin/cl.exe'',
                                       intelliSenseMode := Some ''gcc-x64''\<rparr>)
   \<and> isCompilerIntelliSenseModeCompatible last_component
       ((new_configuration ''Win32'')\<lparr>compilerPath := Some ''C:/VS/bin/cl.exe'',
                                       intelliSenseMode := Some ''msvc-x64''\<rparr>)
   \<and> isCompilerIntelliSenseModeCompatible last_component (new_configuration ''Win32'')"
proof -
  have n: "compilerName (last_component ''C:/VS/bin/cl.exe'') = ''cl.exe''"
    by (simp add: last_component_def)
  have u: "compilerPath (new_configuration ''Win32'') = None"
    by (simp add: new_configuration_def)
  have q: "''C:/VS/bin/cl.exe'' \<noteq> [] \<and> ''C:/VS/bin/cl.exe'' \<noteq> ''${default}''"
    by simp
  note T = compiler_mode_compatibility
             [of "new_configuration ''Win32''" last_component "[]" "[]" "''C:/VS/bin/cl.exe''"]
  from T have 1: "isCompilerIntelliSenseModeCompatible last_component (new_configuration ''Win32'')"
    using u by blast
  from T n q have 2: "\<not> isCompilerIntelliSenseModeCompatible last_component
       ((new_configuration ''Win32'')\<lparr>compilerPath := Some ''C:/VS/bin/cl.exe'',
                                       intelliSenseMode := Some ''gcc-x64''\<rparr>)
   \<and> isCompilerIntelliSenseModeCompatible last_component
       ((new_configuration ''Win32'')\<lparr>compilerPath := Some ''C:/VS/bin/cl.exe'',
                                       intelliSenseMode := Some ''msvc-x64''\<rparr>)"
    by blast
  from 1 2 show ?thesis by blast
qed

subsection \<open>Migration\<close>

lemma updateToVersion3_config_idem:
  "updateToVersion3_config h (updateToVersion3_config h c) = updateToVersion3_config h c"
  by (simp add: updateToVersion3_config_def)

lemma v4_fields:
  "intelliSenseMode (v4_compilerPath h st c) = intelliSenseMode c"
  "intelliSenseMode (v4_cStandard h st c) = intelliSenseMode c"
  "intelliSenseMode (v4_cppStandard h st c) = intelliSenseMode c"
  "compilerPath (v4_cStandard h st c) = compilerPath c"
  "compilerPath (v4_cppStandard h st c) = compilerPath c"
  "compileCommands (v4_cStandard h st c) = compileCommands c"
  "compileCommands (v4_cppStandard h st c) = compileCommands c"
  "cStandard (v4_cppStandard h st c) = cStandard c"
  by (simp_all add: v4_compilerPath_def v4_cStandard_def v4_cppStandard_def)

lemma v4_fixed:
  "intelliSenseMode c \<noteq> None \<or> truthy (settings_defaultIntelliSenseMode (settings h))
     \<Longrightarrow> v4_intelliSenseMode h c = c"
  "compilerPath c \<noteq> None \<or> \<not> truthy (defaultCompilerPath st) \<or>
     truthy (compileCommands c) \<or> truthy (settings_defaultCompilerPath (settings h))
     \<Longrightarrow> v4_compilerPath h st c = c"
  "truthy (cStandard c) \<or> \<not> truthy (defaultCStandard st) \<or>
     truthy (settings_defaultCStandard (settings h))
     \<Longrightarrow> v4_cStandard h st c = c"
  "truthy (cppStandard c) \<or> \<not> truthy (defaultCppStandard st) \<or>
     truthy (settings_defaultCppStandard (settings h))
     \<Longrightarrow> v4_cppStandard h st c = c"
  by (auto simp: v4_intelliSenseMode_def v4_compilerPath_def v4_cStandard_def v4_cppStandard_def)

lemma v4_after:
  "intelliSenseMode (v4_intelliSenseMode h c) \<noteq> None \<or> truthy (settings_defaultIntelliSenseMode (settings h))"
  "compilerPath (v4_compilerPath h st c) \<noteq> None \<or> \<not> truthy (defaultCompilerPath st) \<or>
     truthy (compileCommands (v4_compilerPath h st c)) \<or> truthy (settings_defaultCompilerPath (settings h))"
  "truthy (cStandard (v4_cStandard h st c)) \<or> \<not> truthy (defaultCStandard st) \<or>
     truthy (settings_defaultCStandard (settings h))"
  "truthy (cppStandard (v4_cppStandard h st c)) \<or> \<not> truthy (defaultCppStandard st) \<or>
     truthy (settings_defaultCppStandard (settings h))"
     apply (simp add: v4_intelliSenseMode_def)
    apply (cases "defaultCompilerPath st"; simp add: v4_compilerPath_def truthy_def)
   apply (simp add: v4_cStandard_def)
  apply (simp add: v4_cppStandard_def)
  done

lemma updateToVersion4_config_idem: "updateToVersion4_config h st (updateToVersion4_config h st c) = updateToVersion4_config h st c"
proof -
  let ?r = "updateToVersion4_config h st c"
  have 1: "v4_intelliSenseMode h ?r = ?r"
    using v4_after(1) [of h c]
    by (intro v4_fixed(1)) (simp add: updateToVersion4_config_def v4_fields)
  have 2: "v4_compilerPath h st ?r = ?r"
    using v4_after(2) [of h st "v4_intelliSenseMode h c"]
    by (intro v4_fixed(2)) (simp add: updateToVersion4_config_def v4_fields)
  have 3: "v4_cStandard h st ?r = ?r"
    using v4_after(3) [of h st "v4_compilerPath h st (v4_intelliSenseMode h c)"]
    by (intro v4_fixed(3)) (simp add: updateToVersion4_config_def v4_fields)
  have 4: "v4_cppStandard h st ?r = ?r"
    using v4_after(4) [of h st "v4_cStandard h st (v4_compilerPath h st (v4_intelliSenseMode h c))"]
    by (intro v4_fixed(4)) (simp add: updateToVersion4_config_def v4_fields)
  have "updateToVersion4_config h st ?r = v4_cppStandard h st (v4_cStandard h st (v4_compilerPath h st (v4_intelliSenseMode h ?r)))"
    by (simp only: updateToVersion4_config_def)
  also have "\<dots> = ?r" by (simp only: 1 2 3 4)
  finally show ?thesis .
qed

text \<open>
  C8. A document without a version goes through exactly the three updates, to 2, to 3 and
  to 4, in this order, and ends at version 4. Each update, applied to a document it has
  produced, changes nothing; and a document at version 4 is left as it is.
\<close>

theorem migration_steps:
  "(version j = None \<longrightarrow>
      migrate_version h st j
        = (True, [], updateToVersion4 h st (updateToVersion3 h (updateToVersion2 j)))
      \<and> version (updateToVersion2 j) = Some 2
      \<and> version (updateToVersion3 h (updateToVersion2 j)) = Some 3
      \<and> version (updateToVersion4 h st (updateToVersion3 h (updateToVersion2 j))) = Some 4)
   \<and> updateToVersion2 (updateToVersion2 j) = updateToVersion2 j
   \<and> updateToVersion3 h (updateToVersion3 h j) = updateToVersion3 h j
   \<and> updateToVersion4 h st (updateToVersion4 h st j) = updateToVersion4 h st j
   \<and> (version j = Some 4 \<longrightarrow> migrate_version h st j = (False, [], j))"
proof -
  have a: "migrate_version h st j
        = (True, [], updateToVersion4 h st (updateToVersion3 h (updateToVersion2 j)))"
    if "version j = None"
    using that
    by (simp add: migrate_version_def Let_def updateToVersion2_def updateToVersion3_def)
  have v: "version (updateToVersion2 j) = Some 2"
    "version (updateToVersion3 h (updateToVersion2 j)) = Some 3"
    "version (updateToVersion4 h st (updateToVersion3 h (updateToVersion2 j))) = Some 4"
    by (simp_all add: updateToVersion2_def updateToVersion3_def updateToVersion4_def)
  have i2: "updateToVersion2 (updateToVersion2 j) = updateToVersion2 j"
    by (simp add: updateToVersion2_def)
  have i3: "updateToVersion3 h (updateToVersion3 h j) = updateToVersion3 h j"
    by (simp add: updateToVersion3_def updateToVersion3_config_idem)
  have i4: "updateToVersion4 h st (updateToVersion4 h st j) = updateToVersion4 h st j"
    by (simp add: updateToVersion4_def updateToVersion4_config_idem)
  have n: "migrate_version h st j = (False, [], j)" if "version j = Some 4"
    using that by (simp add: migrate_version_def configVersion_def)
  from a v i2 i3 i4 n show ?thesis by blast
qed

theorem migration_steps_witness:
  "migrate_version linux_host (loaded [] 0 False) (document_of [''Mac'', ''mine''] None)
     = (True, [],
        \<lparr>configurations =
           [(new_configuration ''Mac'')
               \<lparr>macFrameworkPath := Some [''/System/Library/Frameworks'', ''/Library/Frameworks''],
                intelliSenseMode := Some ''clang-x64''\<rparr>,
            (new_configuration ''mine'')\<lparr>intelliSenseMode := Some ''gcc-x64''\<rparr>],
         env = None, version = Some 4, enableConfigurationSquiggles = None\<rparr>)
   \<and> migrate_version linux_host (loaded [] 0 False) (document_of [''Mac'', ''mine''] (Some 4))
     = (False, [], document_of [''Mac'', ''mine''] (Some 4))"
proof -
  have v: "version (document_of [''Mac'', ''mine''] None) = None"
          "version (document_of [''Mac'', ''mine''] (Some 4)) = Some 4"
    by (simp_all add: document_of_def)
  have e: "updateToVersion4 linux_host (loaded [] 0 False)
             (updateToVersion3 linux_host (updateToVersion2 (document_of [''Mac'', ''mine''] None)))
           = \<lparr>configurations =
           [(new_configuration ''Mac'')
               \<lparr>macFrameworkPath := Some [''/System/Library/Frameworks'', ''/Library/Frameworks''],
                intelliSenseMode := Some ''clang-x64''\<rparr>,
            (new_configuration ''mine'')\<lparr>intelliSenseMode := Some ''gcc-x64''\<rparr>],
         env = None, version = Some 4, enableConfigurationSquiggles = None\<rparr>"
    by (simp add: updateToVersion4_def updateToVersion3_def updateToVersion2_def document_of_def
          updateToVersion4_config_def updateToVersion3_config_def v4_intelliSenseMode_def
          v4_compilerPath_def v4_cStandard_def v4_cppStandard_def new_configuration_def
          linux_host_def no_settings_def loaded_def truthy_def getIntelliSenseModeForPlatform_def)
  from migration_steps [of "document_of [''Mac'', ''mine''] None" linux_host "loaded [] 0 False"]
       migration_steps [of "document_of [''Mac'', ''mine''] (Some 4)" linux_host "loaded [] 0 False"]
       v e
  show ?thesis by simp
qed

subsection \<open>Path resolution\<close>

lemma split_first_Some:
  "split_first pat s = Some (a, b) \<Longrightarrow> s = a @ pat @ b"
proof (induction s arbitrary: a)
  case Nil
  then show ?case by (simp split: if_splits)
next
  case (Cons c cs)
  show ?case
  proof (cases "prefix pat (c # cs)")
    case True
    with Cons.prems have "a = []" "b = drop (length pat) (c # cs)" by simp_all
    moreover from True obtain z where "c # cs = pat @ z" by (auto simp: prefix_def)
    ultimately show ?thesis by simp
  next
    case False
    with Cons.prems obtain a' where "split_first pat cs = Some (a', b)" "a = c # a'"
      by auto
    with Cons.IH [of a'] show ?thesis by simp
  qed
qed

lemma split_first_None:
  "split_first pat s = None \<longleftrightarrow> \<not> sublist pat s"
  by (induction s) (auto simp: sublist_Cons_right)

lemma GetSubstitution_plain:
  "CHR ''$'' \<notin> set r \<Longrightarrow> GetSubstitution m f b r = r"
  by (induction m f b r rule: GetSubstitution.induct) auto

lemma replace_js_plain:
  assumes "CHR ''$'' \<notin> set sub" "pat \<noteq> []"
  shows "replace_js s pat sub = replace_first pat sub s"
proof -
  have "(case split_first pat s of None \<Rightarrow> s | Some (b, a) \<Rightarrow> b @ sub @ a) = replace_first pat sub s"
    using assms(2) by (induction s) (auto split: option.splits)
  then show ?thesis
    by (auto simp: replace_js_def GetSubstitution_plain [OF assms(1)] split: option.splits)
qed

lemma replace_first_absent:
  "\<not> sublist tok s \<Longrightarrow> replace_first tok sub s = s"
  by (induction s) (auto simp: sublist_Cons_right)

lemma replace_first_occurrence:
  assumes "tok \<noteq> []" "\<not> sublist tok (a @ butlast tok)"
  shows "replace_first tok sub (a @ tok @ b) = a @ sub @ b"
  using assms(2)
proof (induction a)
  case Nil
  from assms(1) obtain c cs where "tok @ b = c # cs" by (cases tok) auto
  moreover have "prefix tok (tok @ b)" by simp
  ultimately show ?case by (metis append_Nil append_eq_conv_conj replace_first.simps(2))
next
  case (Cons x a)
  have np: "\<not> prefix tok (x # a @ tok @ b)"
  proof
    assume p: "prefix tok (x # a @ tok @ b)"
    have "length tok \<le> length ((x # a) @ butlast tok)" by simp
    moreover have "prefix ((x # a) @ butlast tok) (x # a @ tok @ b)"
      using assms(1) by (metis append.assoc append_Cons append_butlast_last_id prefixI)
    ultimately have "prefix tok ((x # a) @ butlast tok)"
      using p by (metis prefix_length_prefix)
    then have "sublist tok ((x # a) @ butlast tok)" by (rule prefix_imp_sublist)
    with Cons.prems show False by simp
  qed
  have "\<not> sublist tok (a @ butlast tok)"
    using Cons.prems by (auto simp: sublist_Cons_right)
  with Cons.IH np show ?case by simp
qed

lemma resolve_wsl_described:
  "resolve_wsl st w s = (if w then wsl_described (rootfs st) s else s)"
proof (cases w)
  case False
  then show ?thesis by (simp add: resolve_wsl_def)
next
  case True
  have "resolve_wsl st True s = wsl_described fs s" if "fs = rootfs st" for fs
    using that
    by (induction fs s rule: wsl_described.induct)
       (auto simp: resolve_wsl_def prefix_code)
  with True show ?thesis by simp
qed

lemma replace_tokens_described:
  assumes "CHR ''$'' \<notin> set (rootUri_fsPath h)"
    and "\<forall>v. getVcpkgRoot h = Some v \<longrightarrow> CHR ''$'' \<notin> set v"
  shows "replace_tokens h r =
           (case getVcpkgRoot h of
              None \<Rightarrow> replace_first ''${workspaceRoot}'' (rootUri_fsPath h)
                        (replace_first ''${workspaceFolder}'' (rootUri_fsPath h) r)
            | Some v \<Rightarrow>
                if v = [] then replace_first ''${workspaceRoot}'' (rootUri_fsPath h)
                        (replace_first ''${workspaceFolder}'' (rootUri_fsPath h) r)
                else replace_first ''${vcpkgRoot}'' v
                       (replace_first ''${workspaceRoot}'' (rootUri_fsPath h)
                         (replace_first ''${workspaceFolder}'' (rootUri_fsPath h) r)))"
proof -
  have g: "(if sublist tok s then replace_js s tok sub else s) = replace_first tok sub s"
    if "CHR ''$'' \<notin> set sub" "tok \<noteq> []" for tok sub s
    using that by (simp add: replace_js_plain replace_first_absent)
  have r1: "(if sublist ''${workspaceFolder}'' s then replace_js s ''${workspaceFolder}'' (rootUri_fsPath h) else s)
            = replace_first ''${workspaceFolder}'' (rootUri_fsPath h) s" for s
    by (rule g [OF assms(1)]) simp
  have r2: "(if sublist ''${workspaceRoot}'' s then replace_js s ''${workspaceRoot}'' (rootUri_fsPath h) else s)
            = replace_first ''${workspaceRoot}'' (rootUri_fsPath h) s" for s
    by (rule g [OF assms(1)]) simp
  show ?thesis
  proof (cases "getVcpkgRoot h")
    case None
    then show ?thesis
      unfolding replace_tokens_def Let_def r1 r2 by (simp add: truthy_def)
  next
    case (Some v)
    with assms(2) have v: "CHR ''$'' \<notin> set v" by blast
    have r3: "(if sublist ''${vcpkgRoot}'' s then replace_js s ''${vcpkgRoot}'' v else s)
            = replace_first ''${vcpkgRoot}'' v s" for s
      by (rule g [OF v]) simp
    show ?thesis
    proof (cases "v = []")
      case True
      with Some show ?thesis
        unfolding replace_tokens_def Let_def r1 r2 by (simp add: truthy_def)
    next
      case False
      with Some have t: "truthy (getVcpkgRoot h)" "the (getVcpkgRoot h) = v"
        by (simp_all add: truthy_def)
      have "replace_tokens h r =
              (if sublist ''${vcpkgRoot}'' (replace_first ''${workspaceRoot}'' (rootUri_fsPath h)
                         (replace_first ''${workspaceFolder}'' (rootUri_fsPath h) r))
               then replace_js (replace_first ''${workspaceRoot}'' (rootUri_fsPath h)
                         (replace_first ''${workspaceFolder}'' (rootUri_fsPath h) r)) ''${vcpkgRoot}'' v
               else replace_first ''${workspaceRoot}'' (rootUri_fsPath h)
                         (replace_first ''${workspaceFolder}'' (rootUri_fsPath h) r))"
        using t by (simp add: replace_tokens_def Let_def r1 r2)
      also have "\<dots> = replace_first ''${vcpkgRoot}'' v
                       (replace_first ''${workspaceRoot}'' (rootUri_fsPath h)
                         (replace_first ''${workspaceFolder}'' (rootUri_fsPath h) r))"
        by (rule r3)
      finally show ?thesis using Some False by simp
    qed
  qed
qed

text \<open>
  C6, as stated, fails: on a Windows host \<open>/mnt/c/foo\<close> resolves to \<open>c:/foo\<close>, the
  drive letter as it was written, not to \<open>C:/foo\<close>; \<open>/mnt/c/\<close> alone is not remapped;
  and the root file system replaces the leading \<open>/\<close> instead of being put before it.
\<close>

theorem resolvePath_mnt_counterexample:
  "resolvePath windows_host (loaded [''A''] 0 False) (document_of [''A''] (Some 4))
      (Some ''/mnt/c/foo'') True = ''c:/foo''
   \<and> resolvePath windows_host (loaded [''A''] 0 False) (document_of [''A''] (Some 4))
      (Some ''/mnt/c/foo'') True \<noteq> ''C:/foo''
   \<and> resolvePath windows_host (loaded [''A''] 0 False) (document_of [''A''] (Some 4))
      (Some ''/mnt/c/'') True = ''/mnt/c/''
   \<and> resolvePath windows_host ((loaded [''A''] 0 False)\<lparr>rootfs := Some ''R/''\<rparr>)
      (document_of [''A''] (Some 4)) (Some ''/usr/include'') True = ''R/usr/include''
   \<and> resolvePath windows_host ((loaded [''A''] 0 False)\<lparr>rootfs := Some ''R/''\<rparr>)
      (document_of [''A''] (Some 4)) (Some ''/usr/include'') True \<noteq> ''R/'' @ ''/usr/include''"
  by (simp add: resolvePath_def resolve_wsl_def remove_stars_def replace_tokens_def
        windows_host_def linux_host_def unchanged_def truthy_def default_token_def
        sublist_code prefix_code loaded_def)

text \<open>
  C6, amended. For a workspace root and a vcpkg root without \<open>$\<close>: \<open>resolvePath\<close> returns
  the empty string for an empty input and for \<open>${default}\<close>; otherwise it substitutes the
  variables, replaces the first \<open>${workspaceFolder}\<close> and the first \<open>${workspaceRoot}\<close> by
  the workspace root, the first \<open>${vcpkgRoot}\<close> by the vcpkg root when it is known,
  removes every \<open>*\<close>, and on a Windows host turns a result longer than \<open>/mnt/c/\<close> that
  starts with \<open>/mnt/\<close> into the drive, a colon and the rest, and otherwise puts the root
  file system, when configured, in place of the leading \<open>/\<close>. So
  \<open>${workspaceFolder}/inc\<close> with the root \<open>/proj\<close> gives \<open>/proj/inc\<close> (no WSL step), and
  \<open>/mnt/c/foo\<close> gives \<open>c:/foo\<close> on a Windows host.
\<close>

theorem resolvePath_amended:
  assumes "CHR ''$'' \<notin> set (rootUri_fsPath h)"
    and "\<forall>v. getVcpkgRoot h = Some v \<longrightarrow> CHR ''$'' \<notin> set v"
  shows "resolvePath h st j p w = resolvePath_described h st j p w
         \<and> (tok \<noteq> [] \<and> \<not> sublist tok (a @ butlast tok)
              \<longrightarrow> replace_first tok sub (a @ tok @ b) = a @ sub @ b)
         \<and> (\<not> sublist tok s \<longrightarrow> replace_first tok sub s = s)
         \<and> (rootUri_fsPath h = ''/proj'' \<and>
            resolveVariables h ''${workspaceFolder}/inc'' (ExtendedEnvironment h j)
              = ''${workspaceFolder}/inc''
              \<longrightarrow> resolvePath h st j (Some ''${workspaceFolder}/inc'') False = ''/proj/inc'')
         \<and> (resolveVariables h ''/mnt/c/foo'' (ExtendedEnvironment h j) = ''/mnt/c/foo''
              \<longrightarrow> resolvePath h st j (Some ''/mnt/c/foo'') True = ''c:/foo'')"
proof -
  have eq: "resolvePath h st j p w = resolvePath_described h st j p w" for p w
  proof (cases p)
    case None
    then show ?thesis by (simp add: resolvePath_def resolvePath_described_def truthy_def)
  next
    case (Some s)
    show ?thesis
    proof (cases "s = [] \<or> s = ''${default}''")
      case True
      with Some show ?thesis
        by (auto simp: resolvePath_def resolvePath_described_def truthy_def default_token_def)
    next
      case False
      with Some have "resolvePath h st j p w =
          resolve_wsl st w (remove_stars (replace_tokens h (resolveVariables h s (ExtendedEnvironment h j))))"
        by (simp add: resolvePath_def truthy_def default_token_def)
      also have "\<dots> = resolvePath_described h st j p w"
        using Some False
        by (simp add: resolvePath_described_def Let_def resolve_wsl_described remove_stars_def
              replace_tokens_described [OF assms] split: option.splits)
      finally show ?thesis .
    qed
  qed
  have e1: "resolvePath h st j (Some ''${workspaceFolder}/inc'') False = ''/proj/inc''"
    if "rootUri_fsPath h = ''/proj''"
       "resolveVariables h ''${workspaceFolder}/inc'' (ExtendedEnvironment h j) = ''${workspaceFolder}/inc''"
    unfolding eq using that
    by (simp add: resolvePath_described_def Let_def prefix_code split: option.splits)
  have e2: "resolvePath h st j (Some ''/mnt/c/foo'') True = ''c:/foo''"
    if "resolveVariables h ''/mnt/c/foo'' (ExtendedEnvironment h j) = ''/mnt/c/foo''"
    unfolding eq using that
    by (simp add: resolvePath_described_def Let_def prefix_code split: option.splits)
  from eq e1 e2 replace_first_occurrence [of tok a sub b] replace_first_absent [of tok s sub]
  show ?thesis by blast
qed

theorem resolvePath_amended_witness:
  "resolvePath linux_host (loaded [''A''] 0 False) (document_of [''A''] (Some 4))
      (Some ''${workspaceFolder}/inc'') False = ''/proj/inc''
   \<and> resolvePath linux_host (loaded [''A''] 0 False) (document_of [''A''] (Some 4))
      (Some ''/mnt/c/foo'') True = ''c:/foo''"
proof -
  have d: "CHR ''$'' \<notin> set (rootUri_fsPath linux_host)"
    by (simp add: linux_host_def)
  have v: "\<forall>v. getVcpkgRoot linux_host = Some v \<longrightarrow> CHR ''$'' \<notin> set v"
    by (simp add: linux_host_def)
  have r: "rootUri_fsPath linux_host = ''/proj''"
    by (simp add: linux_host_def)
  have u: "resolveVariables linux_host s e = s" for s e
    by (simp add: linux_host_def unchanged_def)
  from resolvePath_amended [OF d v, of "loaded [''A''] 0 False" "document_of [''A''] (Some 4)"] r u
  show ?thesis by blast
qed

subsection \<open>Occurrences of the tokens in a path\<close>

lemma headed_split:
  assumes "headed t" "t = x1 @ x2" "x1 \<noteq> []"
  shows "CHR ''$'' \<notin> set x2"
proof -
  from assms(1) obtain body where b: "t = CHR ''$'' # body" "CHR ''$'' \<notin> set body"
    by (auto simp: headed_def)
  from assms(2,3) b(1) obtain x1' where "x1 = CHR ''$'' # x1'" "body = x1' @ x2"
    by (cases x1) auto
  with b(2) show ?thesis by simp
qed

lemma headed_hd: "headed t \<Longrightarrow> \<exists>body. t = CHR ''$'' # body"
  by (auto simp: headed_def)

lemma sublist_headed_tail:
  assumes "headed tok" "headed t" "\<not> prefix tok t" "\<not> prefix t tok" "sublist tok (t @ b)"
  shows "sublist tok b"
proof -
  from assms(1) obtain tb where tok: "tok = CHR ''$'' # tb" "CHR ''$'' \<notin> set tb"
    by (auto simp: headed_def)
  from assms(2) obtain bt where t: "t = CHR ''$'' # bt" "CHR ''$'' \<notin> set bt"
    by (auto simp: headed_def)
  from assms(5) consider "sublist tok t" | "sublist tok b"
    | x1 x2 where "tok = x1 @ x2" "suffix x1 t" "prefix x2 b"
    by (auto simp: sublist_append)
  then show ?thesis
  proof cases
    case 1
    then have "prefix tok t \<or> sublist tok bt"
      unfolding t(1) by (simp add: sublist_Cons_right)
    with assms(3) have "sublist tok bt" by simp
    then have "set tok \<subseteq> set bt" by (rule set_mono_sublist)
    with tok(1) t(2) show ?thesis by auto
  next
    case 2
    then show ?thesis .
  next
    case 3
    show ?thesis
    proof (cases "x1 = []")
      case True
      with 3 show ?thesis by auto
    next
      case False
      from 3(2) obtain q where q: "t = q @ x1" by (auto simp: suffix_def)
      show ?thesis
      proof (cases "q = []")
        case True
        with q 3(1) have "prefix t tok" by simp
        with assms(4) show ?thesis by simp
      next
        case False
        from headed_split [OF assms(2) q False] have "CHR ''$'' \<notin> set x1" .
        moreover from \<open>x1 \<noteq> []\<close> 3(1) tok(1) have "hd x1 = CHR ''$''"
          by (cases x1) auto
        ultimately show ?thesis using \<open>x1 \<noteq> []\<close> by (cases x1) auto
      qed
    qed
  qed
qed

lemma sublist_replace_other:
  assumes "headed tok" "headed t" "\<not> prefix tok t" "\<not> prefix t tok" "sublist tok (w @ t @ b)"
  shows "sublist tok (w @ z @ b)"
proof -
  from assms(2) obtain bt where t: "t = CHR ''$'' # bt" by (auto simp: headed_def)
  from assms(5) consider "sublist tok w" | "sublist tok (t @ b)"
    | x1 x2 where "tok = x1 @ x2" "suffix x1 w" "prefix x2 (t @ b)" "x1 \<noteq> []" "x2 \<noteq> []"
    by (auto simp: sublist_append [of tok w "t @ b"]) (metis append_Nil append_Nil2 prefix_imp_sublist suffix_imp_sublist)
  then show ?thesis
  proof cases
    case 1
    then show ?thesis by (auto simp: sublist_append)
  next
    case 2
    from sublist_headed_tail [OF assms(1-4) 2] show ?thesis
      by (auto simp: sublist_append)
  next
    case 3
    from headed_split [OF assms(1) 3(1) 3(4)] have "CHR ''$'' \<notin> set x2" .
    moreover from 3(3,5) t have "hd x2 = CHR ''$''"
      by (cases x2) (auto simp: prefix_Cons)
    ultimately show ?thesis using 3(5) by (cases x2) auto
  qed
qed

lemma blocked_sublist: "blocked m tok s \<Longrightarrow> sublist tok s"
  by (auto simp: blocked_def sublist_append)

lemma apart_char:
  assumes "c \<notin> set t" "t \<noteq> []"
  shows "apart [c] t"
  unfolding apart_def
proof (intro allI impI)
  fix x y a b
  assume eq: "x @ [c] @ y = a @ t @ b"
  then have "\<exists>us. x = a @ us \<and> us @ [c] @ y = t @ b \<or> x @ us = a \<and> [c] @ y = us @ t @ b"
    by (simp only: append_eq_append_conv2)
  then consider us where "x = a @ us" "us @ [c] @ y = t @ b"
    | us where "x @ us = a" "[c] @ y = us @ t @ b"
    by blast
  then show "(\<exists>w. a = x @ [c] @ w) \<or> (\<exists>w. x = a @ t @ w)"
  proof cases
    case 1
    from 1(2) have "\<exists>vs. us = t @ vs \<and> vs @ [c] @ y = b \<or> us @ vs = t \<and> [c] @ y = vs @ b"
      by (simp only: append_eq_append_conv2)
    then consider vs where "us = t @ vs" | vs where "us @ vs = t" "[c] @ y = vs @ b"
      by blast
    then show ?thesis
    proof cases
      case 1
      with \<open>x = a @ us\<close> show ?thesis by simp
    next
      case 2
      show ?thesis
      proof (cases vs)
        case Nil
        with 2 \<open>x = a @ us\<close> show ?thesis by simp
      next
        case (Cons v vs')
        with 2 have "c \<in> set t" by auto
        with assms(1) show ?thesis by simp
      qed
    qed
  next
    case 2
    show ?thesis
    proof (cases us)
      case Nil
      with 2(2) assms show ?thesis by (cases t) auto
    next
      case (Cons u us')
      with 2 show ?thesis by auto
    qed
  qed
qed

lemma apart_headed:
  assumes "headed m" "headed t" "\<not> prefix m t" "\<not> prefix t m"
  shows "apart m t"
  unfolding apart_def
proof (intro allI impI)
  fix x y a b
  assume eq: "x @ m @ y = a @ t @ b"
  have clash: False if "m @ y = t @ b"
  proof -
    from that have "prefix m (t @ b)" by (metis prefixI)
    moreover have "prefix t (t @ b)" by simp
    ultimately have "prefix m t \<or> prefix t m" by (rule prefix_same_cases)
    with assms(3,4) show False by simp
  qed
  have tail: False if "k = us @ vs" "us \<noteq> []" "vs \<noteq> []" "vs @ p = k' @ q" "headed k" "headed k'"
    for k k' us vs p q
  proof -
    from headed_split [OF that(5) that(1) that(2)] have "CHR ''$'' \<notin> set vs" .
    moreover from headed_hd [OF that(6)] that(3,4) have "hd vs = CHR ''$''"
      by (cases vs) auto
    ultimately show False using that(3) by (cases vs) auto
  qed
  from eq have "\<exists>us. x = a @ us \<and> us @ m @ y = t @ b \<or> x @ us = a \<and> m @ y = us @ t @ b"
    by (simp only: append_eq_append_conv2)
  then consider us where "x = a @ us" "us @ m @ y = t @ b"
    | us where "x @ us = a" "m @ y = us @ t @ b"
    by blast
  then show "(\<exists>w. a = x @ m @ w) \<or> (\<exists>w. x = a @ t @ w)"
  proof cases
    case 1
    from 1(2) have "\<exists>vs. us = t @ vs \<and> vs @ m @ y = b \<or> us @ vs = t \<and> m @ y = vs @ b"
      by (simp only: append_eq_append_conv2)
    then consider vs where "us = t @ vs" | vs where "us @ vs = t" "m @ y = vs @ b"
      by blast
    then show ?thesis
    proof cases
      case 1
      with \<open>x = a @ us\<close> show ?thesis by simp
    next
      case 2
      show ?thesis
      proof (cases "us = []")
        case True
        with 2 have "m @ y = t @ b" by simp
        with clash show ?thesis by simp
      next
        case False
        show ?thesis
        proof (cases "vs = []")
          case True
          with 2 \<open>x = a @ us\<close> show ?thesis by simp
        next
          case vne: False
          from tail [OF 2(1) [symmetric] False vne 2(2) [symmetric] assms(2) assms(1)]
          show ?thesis by simp
        qed
      qed
    qed
  next
    case 2
    from 2(2) have "\<exists>vs. m = us @ vs \<and> vs @ y = t @ b \<or> m @ vs = us \<and> y = vs @ t @ b"
      by (simp only: append_eq_append_conv2)
    then consider vs where "m = us @ vs" "vs @ y = t @ b" | vs where "m @ vs = us"
      by blast
    then show ?thesis
    proof cases
      case 1
      show ?thesis
      proof (cases "us = []")
        case True
        with 1 have "m @ y = t @ b" by simp
        with clash show ?thesis by simp
      next
        case False
        show ?thesis
        proof (cases "vs = []")
          case True
          with 1 \<open>x @ us = a\<close> show ?thesis by auto
        next
          case vne: False
          from tail [OF 1(1) False vne 1(2) assms(1) assms(2)]
          show ?thesis by simp
        qed
      qed
    next
      case 2
      with \<open>x @ us = a\<close> show ?thesis by auto
    qed
  qed
qed

lemma blocked_replace_other:
  assumes "headed tok" "headed t" "\<not> prefix tok t" "\<not> prefix t tok" "apart m t"
    and "blocked m tok (a @ t @ b)"
  shows "blocked m tok (a @ z @ b)"
proof -
  from assms(6) obtain x y where xy: "a @ t @ b = x @ m @ y" "sublist tok y"
    by (auto simp: blocked_def)
  from assms(5) xy(1) consider w where "a = x @ m @ w" | w where "x = a @ t @ w"
    unfolding apart_def by metis
  then show ?thesis
  proof cases
    case 1
    with xy(1) have y: "y = w @ t @ b" by simp
    from sublist_replace_other [OF assms(1-4), of w b z] xy(2) y
    have "sublist tok (w @ z @ b)" by simp
    moreover have "a @ z @ b = x @ m @ (w @ z @ b)" using 1 by simp
    ultimately show ?thesis unfolding blocked_def by blast
  next
    case 2
    with xy(1) have "b = w @ m @ y" by simp
    then have "a @ z @ b = (a @ z @ w) @ m @ y" by simp
    with xy(2) show ?thesis unfolding blocked_def by blast
  qed
qed

lemma split_first_least:
  "split_first pat s = Some (a, b) \<Longrightarrow> s = a0 @ pat @ b0 \<Longrightarrow> length a \<le> length a0"
proof (induction s arbitrary: a a0)
  case Nil
  then show ?case by (simp split: if_splits)
next
  case (Cons c cs)
  show ?case
  proof (cases "prefix pat (c # cs)")
    case True
    with Cons.prems(1) show ?thesis by simp
  next
    case False
    with Cons.prems(1) obtain a' where a': "split_first pat cs = Some (a', b)" "a = c # a'"
      by auto
    from False Cons.prems(2) obtain a0' where a0': "a0 = c # a0'" "cs = a0' @ pat @ b0"
      by (cases a0) auto
    from Cons.IH [OF a'(1) a0'(2)] a'(2) a0'(1) show ?thesis by simp
  qed
qed

lemma later_occurrence_after_first:
  assumes "headed tok" "s = a0 @ tok @ b0" "sublist tok b0" "split_first tok s = Some (a, b)"
  shows "sublist tok b"
proof -
  from split_first_Some [OF assms(4)] have s: "s = a @ tok @ b" .
  from split_first_least [OF assms(4) assms(2)] have le: "length a \<le> length a0" .
  from s assms(2) have "a @ tok @ b = a0 @ tok @ b0" by simp
  then have "\<exists>us. a = a0 @ us \<and> us @ tok @ b = tok @ b0 \<or> a @ us = a0 \<and> tok @ b = us @ tok @ b0"
    by (simp only: append_eq_append_conv2)
  then obtain w where w: "a0 = a @ w" "tok @ b = w @ tok @ b0"
  proof (elim exE disjE conjE)
    fix us assume u: "a = a0 @ us" "us @ tok @ b = tok @ b0"
    with le have "us = []" by simp
    with u have "a0 = a @ []" "tok @ b = [] @ tok @ b0" by simp_all
    then show ?thesis by (rule that)
  next
    fix us assume "a @ us = a0" "tok @ b = us @ tok @ b0"
    then show ?thesis using that [of us] by simp
  qed
  from w(2) have "\<exists>us. tok = w @ us \<and> us @ b = tok @ b0 \<or> tok @ us = w \<and> b = us @ tok @ b0"
    by (simp only: append_eq_append_conv2)
  then consider us where "tok = w @ us" "us @ b = tok @ b0"
    | us where "tok @ us = w" "b = us @ tok @ b0"
    by blast
  then show ?thesis
  proof cases
    case 1
    show ?thesis
    proof (cases "w = []")
      case True
      with w(2) assms(3) show ?thesis by simp
    next
      case False
      show ?thesis
      proof (cases us)
        case Nil
        with 1(2) show ?thesis by simp
      next
        case (Cons u us')
        from headed_split [OF assms(1) 1(1) False] Cons have "u \<noteq> CHR ''$''" by auto
        moreover from headed_hd [OF assms(1)] 1(2) Cons have "u = CHR ''$''" by auto
        ultimately show ?thesis by simp
      qed
    qed
  next
    case 2
    then show ?thesis by simp
  qed
qed

lemma GetSubstitution_keeps:
  "c \<in> set r \<Longrightarrow> c \<notin> {CHR ''$'', CHR ''&'', CHR 0x60, CHR 0x27}
     \<Longrightarrow> c \<in> set (GetSubstitution m f b r)"
proof (induction m f b r rule: GetSubstitution.induct)
  case (1 mt fr bk)
  then show ?case by simp
next
  case (2 mt fr bk c0)
  then show ?case by simp
next
  case (3 mt fr bk x d r)
  have nx: "c \<noteq> CHR ''$''" and nd: "c \<noteq> CHR ''&''" "c \<noteq> CHR 0x60" "c \<noteq> CHR 0x27"
    using "3.prems"(2) by simp_all
  show ?case
  proof (cases "x = CHR ''$'' \<and> d \<in> {CHR ''$'', CHR ''&'', CHR 0x60, CHR 0x27}")
    case True
    with "3.prems"(1) nx nd have cr: "c \<in> set r" by auto
    from True consider "d = CHR ''$''" | "d = CHR ''&''" | "d = CHR 0x60" | "d = CHR 0x27"
      by blast
    then show ?thesis
    proof cases
      case 1
      with True "3.IH"(1) cr "3.prems"(2) show ?thesis by simp
    next
      case 2
      with True "3.IH"(2) cr "3.prems"(2) show ?thesis by simp
    next
      case 3
      with True "3.IH"(3) cr "3.prems"(2) show ?thesis by simp
    next
      case 4
      with True "3.IH"(4) cr "3.prems"(2) show ?thesis by simp
    qed
  next
    case False
    then have e: "GetSubstitution mt fr bk (x # d # r)
                   = x # GetSubstitution mt fr bk (d # r)"
      by auto
    show ?thesis
    proof (cases "c = x")
      case True
      with e show ?thesis by simp
    next
      case ne: False
      with "3.prems"(1) have "c \<in> set (d # r)" by simp
      with "3.IH"(5) False "3.prems"(2) have "c \<in> set (GetSubstitution mt fr bk (d # r))"
        by blast
      with e show ?thesis by simp
    qed
  qed
qed

lemma sublist_filter:
  assumes "sublist xs ys"
  shows "sublist (filter P xs) (filter P ys)"
proof -
  from assms obtain ps ss where "ys = ps @ xs @ ss" by (auto simp: sublist_def)
  then have "filter P ys = filter P ps @ filter P xs @ filter P ss" by simp
  then show ?thesis by (metis sublist_appendI)
qed

lemma sublist_remove_stars:
  assumes "sublist tok s" "CHR ''*'' \<notin> set tok"
  shows "sublist tok (remove_stars s)"
proof -
  have "filter (\<lambda>c. c \<noteq> CHR ''*'') tok = tok"
    using assms(2) by (auto simp: filter_id_conv)
  with sublist_filter [OF assms(1), of "\<lambda>c. c \<noteq> CHR ''*''"]
  show ?thesis by (simp add: remove_stars_def)
qed

lemma blocked_remove_stars:
  assumes "blocked m tok s" "CHR ''*'' \<notin> set m" "CHR ''*'' \<notin> set tok"
  shows "blocked m tok (remove_stars s)"
proof -
  from assms(1) obtain x y where xy: "s = x @ m @ y" "sublist tok y"
    by (auto simp: blocked_def)
  have "remove_stars m = m"
    using assms(2) by (auto simp: remove_stars_def filter_id_conv)
  with xy(1) have "remove_stars s = remove_stars x @ m @ remove_stars y"
    by (simp add: remove_stars_def)
  with sublist_remove_stars [OF xy(2) assms(3)] show ?thesis
    unfolding blocked_def by blast
qed

lemma blocked_resolve_wsl:
  assumes "blocked m tok s" "m \<noteq> []" "hd m \<notin> set ''/mnt/''"
  shows "sublist tok (resolve_wsl st w s)"
proof -
  from assms(1) obtain x y where xy: "s = x @ m @ y" "sublist tok y"
    by (auto simp: blocked_def)
  from assms(2) obtain c m' where m: "m = c # m'" by (cases m) auto
  with assms(3) have c: "c \<notin> set ''/mnt/''" by simp
  have sy: "sublist tok (m' @ y)" using xy(2) by (simp add: sublist_append)
  have tl: "sublist tok (drop 1 s)"
    if "prefix ''/'' s"
  proof -
    from that xy(1) c m obtain x' where "x = CHR ''/'' # x'"
      by (cases x) (auto simp: prefix_Cons)
    with xy have "drop 1 s = x' @ m @ y" by simp
    with xy(2) show ?thesis by (simp add: sublist_append)
  qed
  have mnt: "sublist tok (take 1 (drop n s) @ '':'' @ drop 1 (drop n s))"
    if "take n s = ''/mnt/''" "n = length ''/mnt/''" for n
  proof -
    have "n \<le> length x"
    proof (rule ccontr)
      assume "\<not> n \<le> length x"
      then have lt: "length x < n" by simp
      then have "take n s ! length x = c"
        using xy(1) m by (simp add: nth_append)
      moreover have "length (take n s) = n" using that by simp
      ultimately have "c \<in> set (take n s)"
        using lt by (metis nth_mem)
      with that(1) c show False by simp
    qed
    then have "drop n s = drop n x @ c # m' @ y" using xy(1) m by simp
    then have "sublist tok (drop 1 (drop n s))"
      using sy by (cases "drop n x") (auto simp: sublist_append sublist_Cons_right)
    then show ?thesis by (simp add: sublist_append sublist_Cons_right)
  qed
  show ?thesis
  proof (cases "w \<and> prefix ''/'' s")
    case False
    then have "resolve_wsl st w s = s" by (auto simp: resolve_wsl_def)
    with blocked_sublist [OF assms(1)] show ?thesis by simp
  next
    case wp: True
    show ?thesis
    proof (cases "length ''/mnt/c/'' < length s \<and> take (length ''/mnt/'') s = ''/mnt/''")
      case True
      have "resolve_wsl st w s =
              take 1 (drop (length ''/mnt/'') s) @ '':'' @ drop 1 (drop (length ''/mnt/'') s)"
        unfolding resolve_wsl_def Let_def by (simp only: wp True if_True simp_thms)
      moreover from True have "take (length ''/mnt/'') s = ''/mnt/''" by blast
      ultimately show ?thesis using mnt [of "length ''/mnt/''"] by simp
    next
      case nm: False
      show ?thesis
      proof (cases "truthy (rootfs st)")
        case True
        have "resolve_wsl st w s = the (rootfs st) @ drop 1 s"
          unfolding resolve_wsl_def Let_def by (simp only: wp nm True if_True if_False simp_thms)
        moreover have "sublist tok (drop 1 s)" using tl wp by blast
        ultimately show ?thesis by (simp add: sublist_append)
      next
        case False
        have "resolve_wsl st w s = s"
          unfolding resolve_wsl_def Let_def by (simp only: wp nm False if_True if_False simp_thms)
        with blocked_sublist [OF assms(1)] show ?thesis by simp
      qed
    qed
  qed
qed

lemma split_first_occurrence:
  assumes "tok \<noteq> []" "\<not> sublist tok (x @ butlast tok)"
  shows "split_first tok (x @ tok @ y) = Some (x, y)"
  using assms(2)
proof (induction x)
  case Nil
  from assms(1) obtain c cs where "tok @ y = c # cs" by (cases tok) auto
  moreover have "prefix tok (tok @ y)" by simp
  ultimately show ?case by (metis append_Nil append_eq_conv_conj split_first.simps(2))
next
  case (Cons u x)
  have np: "\<not> prefix tok (u # x @ tok @ y)"
  proof
    assume p: "prefix tok (u # x @ tok @ y)"
    have "length tok \<le> length ((u # x) @ butlast tok)" by simp
    moreover have "prefix ((u # x) @ butlast tok) (u # x @ tok @ y)"
      using assms(1) by (metis append.assoc append_Cons append_butlast_last_id prefixI)
    ultimately have "prefix tok ((u # x) @ butlast tok)"
      using p by (metis prefix_length_prefix)
    then have "sublist tok ((u # x) @ butlast tok)" by (rule prefix_imp_sublist)
    with Cons.prems show False by simp
  qed
  have "\<not> sublist tok (x @ butlast tok)"
    using Cons.prems by (auto simp: sublist_Cons_right)
  with Cons.IH np show ?case by simp
qed

lemma guarded_replace_cases:
  obtains (same) "\<not> sublist t s" "(if sublist t s then replace_js s t z else s) = s"
  | (replaced) a b where "split_first t s = Some (a, b)" "s = a @ t @ b"
      "(if sublist t s then replace_js s t z else s) = a @ GetSubstitution t a b z @ b"
proof (cases "sublist t s")
  case False
  then show ?thesis by (intro same) simp_all
next
  case True
  then obtain a b where ab: "split_first t s = Some (a, b)"
    using split_first_None [of t s] by (cases "split_first t s") auto
  from split_first_Some [OF ab] True ab show ?thesis
    by (intro replaced [of a b]) (simp_all add: replace_js_def)
qed

lemma guarded_replace_blocked:
  assumes "headed tok" "headed t" "\<not> prefix tok t" "\<not> prefix t tok" "apart m t"
    and "blocked m tok s"
  shows "blocked m tok (if sublist t s then replace_js s t z else s)"
proof (cases rule: guarded_replace_cases [of t s z])
  case same
  with assms(6) show ?thesis by simp
next
  case (replaced a b)
  from blocked_replace_other [OF assms(1-5), of a b] assms(6) replaced(2,3)
  show ?thesis by simp
qed

lemma guarded_replace_sublist:
  assumes "headed tok" "headed t" "\<not> prefix tok t" "\<not> prefix t tok" "sublist tok s"
  shows "sublist tok (if sublist t s then replace_js s t z else s)"
proof (cases rule: guarded_replace_cases [of t s z])
  case same
  with assms(5) show ?thesis by simp
next
  case (replaced a b)
  from sublist_replace_other [OF assms(1-4), of a b] assms(5) replaced(2,3)
  show ?thesis by simp
qed

lemma guarded_replace_own:
  assumes "headed tok" "blocked tok tok s"
  shows "\<exists>a b. (if sublist tok s then replace_js s tok z else s) = a @ GetSubstitution tok a b z @ b
               \<and> sublist tok b"
proof (cases rule: guarded_replace_cases [of tok s z])
  case same
  with blocked_sublist [OF assms(2)] show ?thesis by simp
next
  case (replaced a b)
  from assms(2) obtain a0 b0 where "s = a0 @ tok @ b0" "sublist tok b0"
    by (auto simp: blocked_def)
  from later_occurrence_after_first [OF assms(1) this replaced(1)] replaced(3)
  show ?thesis by blast
qed

lemma token_facts:
  "headed ''${workspaceFolder}''" "headed ''${workspaceRoot}''" "headed ''${vcpkgRoot}''"
  by (simp_all add: headed_def)

lemma token_incomparable:
  "\<not> prefix ''${workspaceFolder}'' ''${workspaceRoot}''"
  "\<not> prefix ''${workspaceRoot}'' ''${workspaceFolder}''"
  "\<not> prefix ''${workspaceFolder}'' ''${vcpkgRoot}''"
  "\<not> prefix ''${vcpkgRoot}'' ''${workspaceFolder}''"
  "\<not> prefix ''${workspaceRoot}'' ''${vcpkgRoot}''"
  "\<not> prefix ''${vcpkgRoot}'' ''${workspaceRoot}''"
  by simp_all

lemma token_apart:
  "apart ''${workspaceFolder}'' ''${workspaceRoot}''"
  "apart ''${workspaceFolder}'' ''${vcpkgRoot}''"
  "apart ''${workspaceRoot}'' ''${workspaceFolder}''"
  "apart ''${workspaceRoot}'' ''${vcpkgRoot}''"
  "apart ''${vcpkgRoot}'' ''${workspaceFolder}''"
  "apart ''${vcpkgRoot}'' ''${workspaceRoot}''"
  by (intro apart_headed token_facts token_incomparable)+

lemma own_stage_result:
  assumes "headed tok" "blocked tok tok s"
    and "w \<longrightarrow> CHR '':'' \<in> set z \<or> CHR 0x5C \<in> set z"
  shows "if w then \<exists>c. (c = CHR '':'' \<or> c = CHR 0x5C) \<and>
                     blocked [c] tok (if sublist tok s then replace_js s tok z else s)
         else sublist tok (if sublist tok s then replace_js s tok z else s)"
proof -
  from guarded_replace_own [OF assms(1,2), of z] obtain a b where
    ab: "(if sublist tok s then replace_js s tok z else s) = a @ GetSubstitution tok a b z @ b"
        "sublist tok b"
    by blast
  show ?thesis
  proof (cases w)
    case False
    have "sublist tok (a @ GetSubstitution tok a b z @ b)"
      using ab(2) by (simp add: sublist_append)
    with ab(1) False show ?thesis by (simp only: if_False)
  next
    case True
    with assms(3) obtain c where c: "c = CHR '':'' \<or> c = CHR 0x5C" "c \<in> set z" by blast
    then have "c \<notin> {CHR ''$'', CHR ''&'', CHR 0x60, CHR 0x27}"
      by (elim disjE) simp_all
    from GetSubstitution_keeps [OF c(2) this, of tok a b]
    obtain u v where "GetSubstitution tok a b z = u @ c # v"
      by (auto simp: in_set_conv_decomp)
    with ab(1) have "(if sublist tok s then replace_js s tok z else s) = (a @ u) @ [c] @ (v @ b)"
      by simp
    moreover have "sublist tok (v @ b)" using ab(2) by (simp add: sublist_append)
    ultimately have "blocked [c] tok (if sublist tok s then replace_js s tok z else s)"
      unfolding blocked_def by blast
    with c(1) have "\<exists>c. (c = CHR '':'' \<or> c = CHR 0x5C) \<and>
                     blocked [c] tok (if sublist tok s then replace_js s tok z else s)"
      by blast
    with True show ?thesis by (simp only: if_True)
  qed
qed

lemma kept_own:
  assumes "headed tok" "blocked tok tok s"
    and "w \<longrightarrow> CHR '':'' \<in> set z \<or> CHR 0x5C \<in> set z"
  shows "kept w tok (if sublist tok s then replace_js s tok z else s)"
  unfolding kept_def by (rule own_stage_result [OF assms])

lemma marker_apart:
  assumes "c = CHR '':'' \<or> c = CHR 0x5C"
    and "t = ''${workspaceFolder}'' \<or> t = ''${workspaceRoot}'' \<or> t = ''${vcpkgRoot}''"
  shows "apart [c] t"
proof (rule apart_char)
  show "c \<notin> set t" using assms by (elim disjE) simp_all
  show "t \<noteq> []" using assms(2) by (elim disjE) simp_all
qed

lemma kept_other:
  assumes "headed tok" "headed t" "\<not> prefix tok t" "\<not> prefix t tok"
    and "t = ''${workspaceFolder}'' \<or> t = ''${workspaceRoot}'' \<or> t = ''${vcpkgRoot}''"
    and "kept w tok s"
  shows "kept w tok (if sublist t s then replace_js s t z else s)"
proof (cases w)
  case False
  with assms(6) have "sublist tok s" by (simp add: kept_def)
  from guarded_replace_sublist [OF assms(1-4) this, of z] False show ?thesis
    by (simp add: kept_def)
next
  case True
  with assms(6) obtain c where c: "c = CHR '':'' \<or> c = CHR 0x5C" "blocked [c] tok s"
    by (auto simp: kept_def)
  from guarded_replace_blocked [OF assms(1-4) marker_apart [OF c(1) assms(5)] c(2), of z]
  have "blocked [c] tok (if sublist t s then replace_js s t z else s)" .
  with c(1) have "\<exists>c. (c = CHR '':'' \<or> c = CHR 0x5C) \<and>
       blocked [c] tok (if sublist t s then replace_js s t z else s)" by blast
  with True show ?thesis by (simp only: kept_def if_True)
qed

lemma kept_finish:
  assumes "kept w tok r \<or> blocked tok tok r" "headed tok" "CHR ''*'' \<notin> set tok"
  shows "sublist tok (resolve_wsl st w (remove_stars r))"
proof -
  from assms(2) have hd: "tok \<noteq> []" "hd tok \<notin> set ''/mnt/''"
    by (auto simp: headed_def)
  show ?thesis
  proof (cases "blocked tok tok r")
    case True
    from blocked_resolve_wsl [OF blocked_remove_stars [OF True assms(3) assms(3)] hd]
    show ?thesis .
  next
    case nb: False
    with assms(1) have k: "kept w tok r" by simp
    show ?thesis
    proof (cases w)
      case False
      with k have "sublist tok r" by (simp add: kept_def)
      from sublist_remove_stars [OF this assms(3)] False show ?thesis
        by (simp add: resolve_wsl_def)
    next
      case True
      with k obtain c where c: "c = CHR '':'' \<or> c = CHR 0x5C" "blocked [c] tok r"
        by (auto simp: kept_def)
      from c(1) have c1: "CHR ''*'' \<notin> set [c]" by (elim disjE) simp_all
      from c(1) have c2: "hd [c] \<notin> set ''/mnt/''" by (elim disjE) simp_all
      from blocked_resolve_wsl [OF blocked_remove_stars [OF c(2) c1 assms(3)] _ c2]
      show ?thesis by simp
    qed
  qed
qed

text \<open>
  A later occurrence of a token is still there in the path returned. On a Windows host
  the workspace root and the vcpkg root are taken to hold a colon or a backslash, as the
  paths of that platform do.
\<close>

lemma token_still_there:
  assumes tok: "tok = ''${workspaceFolder}'' \<or> tok = ''${workspaceRoot}'' \<or> tok = ''${vcpkgRoot}''"
    and p: "p \<noteq> []" "p \<noteq> ''${default}''"
    and two: "resolveVariables h p (ExtendedEnvironment h j) = a @ tok @ b" "sublist tok b"
    and wr: "w \<longrightarrow> CHR '':'' \<in> set (rootUri_fsPath h) \<or> CHR 0x5C \<in> set (rootUri_fsPath h)"
    and wv: "w \<longrightarrow> (\<forall>v. getVcpkgRoot h = Some v \<and> v \<noteq> [] \<longrightarrow> CHR '':'' \<in> set v \<or> CHR 0x5C \<in> set v)"
  shows "sublist tok (resolvePath h st j (Some p) w)"
proof -
  define r0 where "r0 = resolveVariables h p (ExtendedEnvironment h j)"
  define r1 where "r1 = (if sublist ''${workspaceFolder}'' r0
                then replace_js r0 ''${workspaceFolder}'' (rootUri_fsPath h) else r0)"
  define r2 where "r2 = (if sublist ''${workspaceRoot}'' r1
                then replace_js r1 ''${workspaceRoot}'' (rootUri_fsPath h) else r1)"
  define r3 where "r3 = (if sublist ''${vcpkgRoot}'' r2 \<and> truthy (getVcpkgRoot h)
                then replace_js r2 ''${vcpkgRoot}'' (the (getVcpkgRoot h)) else r2)"
  have rt: "replace_tokens h r0 = r3"
    by (simp add: replace_tokens_def Let_def r1_def r2_def r3_def)
  have rp: "resolvePath h st j (Some p) w = resolve_wsl st w (remove_stars r3)"
    using p by (simp add: resolvePath_def truthy_def default_token_def rt [symmetric] r0_def)
  have b0: "blocked tok tok r0"
    unfolding blocked_def r0_def using two by blast
  have star: "CHR ''*'' \<notin> set tok" using tok by (elim disjE) simp_all
  have hd: "headed tok" using tok token_facts by (elim disjE) simp_all
  have r3_cases: "r3 = (if truthy (getVcpkgRoot h)
                        then (if sublist ''${vcpkgRoot}'' r2
                              then replace_js r2 ''${vcpkgRoot}'' (the (getVcpkgRoot h)) else r2)
                        else r2)"
    by (simp add: r3_def)
  have fin: "kept w tok r3 \<or> blocked tok tok r3"
    using tok
  proof (elim disjE)
    assume t: "tok = ''${workspaceFolder}''"
    have "kept w tok r1"
      using kept_own [OF hd b0 wr] unfolding r1_def t by assumption
    then have "kept w tok r2"
      unfolding r2_def t by (intro kept_other token_facts token_incomparable) simp_all
    then have "kept w tok r3"
      unfolding r3_cases t
      by (cases "truthy (getVcpkgRoot h)")
         (simp_all add: kept_other token_facts token_incomparable)
    then show ?thesis by simp
  next
    assume t: "tok = ''${workspaceRoot}''"
    from b0 have "blocked tok tok r1"
      unfolding r1_def t by (intro guarded_replace_blocked token_facts token_incomparable token_apart)
    then have "kept w tok r2"
      using kept_own [OF hd _ wr, of r1] unfolding r2_def t by blast
    then have "kept w tok r3"
      unfolding r3_cases t
      by (cases "truthy (getVcpkgRoot h)")
         (simp_all add: kept_other token_facts token_incomparable)
    then show ?thesis by simp
  next
    assume t: "tok = ''${vcpkgRoot}''"
    from b0 have "blocked tok tok r1"
      unfolding r1_def t by (intro guarded_replace_blocked token_facts token_incomparable token_apart)
    then have b2: "blocked tok tok r2"
      unfolding r2_def t by (intro guarded_replace_blocked token_facts token_incomparable token_apart)
    show ?thesis
    proof (cases "truthy (getVcpkgRoot h)")
      case False
      with b2 show ?thesis by (simp add: r3_cases)
    next
      case True
      then obtain v where v: "getVcpkgRoot h = Some v" "v \<noteq> []"
        by (cases "getVcpkgRoot h") (auto simp: truthy_def)
      with wv have "w \<longrightarrow> CHR '':'' \<in> set v \<or> CHR 0x5C \<in> set v" by blast
      from kept_own [OF hd b2 this] have "kept w tok (if sublist tok r2 then replace_js r2 tok v else r2)" .
      moreover have "r3 = (if sublist tok r2 then replace_js r2 tok v else r2)"
        using True v by (simp add: r3_cases t)
      ultimately show ?thesis by simp
    qed
  qed
  show ?thesis
    unfolding rp by (rule kept_finish [OF fin hd star])
qed

text \<open>
  The replacements of \<open>resolvePath\<close> are the three steps one after the other, and the
  first split of a text at a token is at the first occurrence of the token.
\<close>

lemma replace_tokens_steps: "replace_tokens h r = replace_each (token_steps h) r"
  by (cases "getVcpkgRoot h")
     (simp_all add: replace_tokens_def token_steps_def token_step_def Let_def truthy_def)

lemma split_first_minimal:
  assumes "split_first pat s = Some (a, b)" "pat \<noteq> []"
  shows "\<not> sublist pat (a @ butlast pat)"
proof
  assume "sublist pat (a @ butlast pat)"
  then obtain u v where uv: "a @ butlast pat = u @ pat @ v" by (auto simp: sublist_def)
  from split_first_Some [OF assms(1)] have "s = a @ pat @ b" .
  also have "\<dots> = (a @ butlast pat) @ [last pat] @ b" using assms(2) by simp
  also have "\<dots> = u @ pat @ (v @ [last pat] @ b)" by (simp add: uv)
  finally have "s = u @ pat @ (v @ [last pat] @ b)" .
  from split_first_least [OF assms(1) this] have "length a \<le> length u" .
  moreover from uv have "length (a @ butlast pat) = length (u @ pat @ v)" by simp
  then have "length a + (length pat - 1) = length u + length pat + length v" by simp
  moreover from assms(2) have "0 < length pat" by simp
  ultimately show False by arith
qed

lemma own_step:
  assumes "headed tok" "blocked tok tok s"
  obtains x y where "s = x @ tok @ y" "\<not> sublist tok (x @ butlast tok)" "sublist tok y"
    "\<And>z. token_step (tok, Some z) s = x @ GetSubstitution tok x y z @ y"
proof -
  from assms(1) have ne: "tok \<noteq> []" by (auto simp: headed_def)
  from assms(2) obtain a0 b0 where s0: "s = a0 @ tok @ b0" "sublist tok b0"
    by (auto simp: blocked_def)
  from s0(1) have sub: "sublist tok s" by (auto simp: sublist_def)
  then obtain x y where xy: "split_first tok s = Some (x, y)"
    using split_first_None [of tok s] by (cases "split_first tok s") auto
  from split_first_Some [OF xy] have 1: "s = x @ tok @ y" .
  from split_first_minimal [OF xy ne] have 2: "\<not> sublist tok (x @ butlast tok)" .
  from later_occurrence_after_first [OF assms(1) s0 xy] have 3: "sublist tok y" .
  have 4: "token_step (tok, Some z) s = x @ GetSubstitution tok x y z @ y" for z
    using sub xy by (simp add: token_step_def replace_js_def)
  from that [OF 1 2 3 4] show ?thesis .
qed


lemma token_steps_split:
  "token_steps h = [] @ (''${workspaceFolder}'', Some (rootUri_fsPath h)) #
      [(''${workspaceRoot}'', Some (rootUri_fsPath h)),
       (''${vcpkgRoot}'', if truthy (getVcpkgRoot h) then getVcpkgRoot h else None)]"
  "token_steps h = [(''${workspaceFolder}'', Some (rootUri_fsPath h))] @
      (''${workspaceRoot}'', Some (rootUri_fsPath h)) #
      [(''${vcpkgRoot}'', if truthy (getVcpkgRoot h) then getVcpkgRoot h else None)]"
  "token_steps h = [(''${workspaceFolder}'', Some (rootUri_fsPath h)),
       (''${workspaceRoot}'', Some (rootUri_fsPath h))] @
      (''${vcpkgRoot}'', if truthy (getVcpkgRoot h) then getVcpkgRoot h else None) # []"
  by (simp_all add: token_steps_def)

lemma replace_each_append:
  "replace_each (xs @ ys) r = replace_each ys (replace_each xs r)"
  by (induction xs arbitrary: r) simp_all

lemma token_step_blocked:
  assumes "headed tok" "headed t" "\<not> prefix tok t" "\<not> prefix t tok" "apart tok t"
    and "blocked tok tok s"
  shows "blocked tok tok (token_step (t, sub) s)"
proof (cases sub)
  case None
  with assms(6) show ?thesis by (simp add: token_step_def)
next
  case (Some z)
  then have e: "token_step (t, sub) s = (if sublist t s then replace_js s t z else s)"
    by (simp add: token_step_def)
  show ?thesis
    unfolding e by (rule guarded_replace_blocked [OF assms])
qed

lemma own_step_result:
  assumes hd: "headed tok"
    and split: "token_steps h = before @ (tok, sub) # after"
    and p: "p \<noteq> []" "p \<noteq> ''${default}''"
    and bl: "blocked tok tok (replace_each before (resolveVariables h p (ExtendedEnvironment h j)))"
  shows "\<exists>x y.
           replace_each before (resolveVariables h p (ExtendedEnvironment h j)) = x @ tok @ y
         \<and> \<not> sublist tok (x @ butlast tok)
         \<and> sublist tok y
         \<and> resolvePath h st j (Some p) w
             = resolve_wsl st w (remove_stars (replace_each after
                 (case sub of None \<Rightarrow> x @ tok @ y
                  | Some z \<Rightarrow> x @ GetSubstitution tok x y z @ y)))"
proof -
  let ?r0 = "resolveVariables h p (ExtendedEnvironment h j)"
  let ?s = "replace_each before ?r0"
  from own_step [OF hd bl] obtain x y where
    xy: "?s = x @ tok @ y" "\<not> sublist tok (x @ butlast tok)" "sublist tok y"
        "\<And>z. token_step (tok, Some z) ?s = x @ GetSubstitution tok x y z @ y"
    by blast
  have step: "token_step (tok, sub) ?s =
                (case sub of None \<Rightarrow> x @ tok @ y | Some z \<Rightarrow> x @ GetSubstitution tok x y z @ y)"
  proof (cases sub)
    case None
    with xy(1) show ?thesis by (simp add: token_step_def)
  next
    case (Some z)
    with xy(4) [of z] show ?thesis by simp
  qed
  have "resolvePath h st j (Some p) w = resolve_wsl st w (remove_stars (replace_tokens h ?r0))"
    using p by (simp add: resolvePath_def truthy_def default_token_def)
  also have "replace_tokens h ?r0 = replace_each after (token_step (tok, sub) ?s)"
    by (simp add: replace_tokens_steps split replace_each_append)
  finally have "resolvePath h st j (Some p) w
      = resolve_wsl st w (remove_stars (replace_each after
          (case sub of None \<Rightarrow> x @ tok @ y | Some z \<Rightarrow> x @ GetSubstitution tok x y z @ y)))"
    by (simp only: step)
  with xy(1-3) show ?thesis by blast
qed

text \<open>
  C10. When the path, after the substitution of variables, holds two or more occurrences
  of one of the three tokens: at the step of that token the text is \<open>x @ tok @ y\<close>,
  where \<open>tok\<close> does not occur before the end of this occurrence and occurs again in
  \<open>y\<close>; the path returned is what the steps that follow, the removal of the stars and
  the WSL block make of \<open>x @ sub @ y\<close>, the first occurrence replaced by the text of
  the step (as \<open>String.prototype.replace\<close> inserts it: the text itself when it has no
  \<open>$\<close>) and \<open>x\<close> and \<open>y\<close> as they were, or of \<open>x @ tok @ y\<close> itself when the
  step has no text; and the token is still there in the path returned. On a Windows host
  the workspace root and the vcpkg root are taken to hold a colon or a backslash, as the
  paths of that platform do.
\<close>

theorem later_occurrence_remains:
  assumes tok: "tok = ''${workspaceFolder}'' \<or> tok = ''${workspaceRoot}'' \<or> tok = ''${vcpkgRoot}''"
    and p: "p \<noteq> []" "p \<noteq> ''${default}''"
    and two: "resolveVariables h p (ExtendedEnvironment h j) = a @ tok @ b" "sublist tok b"
    and wr: "w \<longrightarrow> CHR '':'' \<in> set (rootUri_fsPath h) \<or> CHR 0x5C \<in> set (rootUri_fsPath h)"
    and wv: "w \<longrightarrow> (\<forall>v. getVcpkgRoot h = Some v \<and> v \<noteq> [] \<longrightarrow> CHR '':'' \<in> set v \<or> CHR 0x5C \<in> set v)"
  shows "\<exists>before sub after x y.
           token_steps h = before @ (tok, sub) # after
         \<and> replace_each before (resolveVariables h p (ExtendedEnvironment h j)) = x @ tok @ y
         \<and> \<not> sublist tok (x @ butlast tok)
         \<and> sublist tok y
         \<and> resolvePath h st j (Some p) w
             = resolve_wsl st w (remove_stars (replace_each after
                 (case sub of None \<Rightarrow> x @ tok @ y
                  | Some z \<Rightarrow> x @ GetSubstitution tok x y z @ y)))
         \<and> (\<forall>z. sub = Some z \<longrightarrow> CHR ''$'' \<notin> set z \<longrightarrow> GetSubstitution tok x y z = z)
         \<and> sublist tok (resolvePath h st j (Some p) w)"
proof -
  let ?r0 = "resolveVariables h p (ExtendedEnvironment h j)"
  have hd: "headed tok" using tok token_facts by (elim disjE) simp_all
  have b0: "blocked tok tok ?r0"
    unfolding blocked_def using two by blast
  have still: "sublist tok (resolvePath h st j (Some p) w)"
    by (rule token_still_there [OF tok p two wr wv])
  have plain: "\<forall>z. sub = Some z \<longrightarrow> CHR ''$'' \<notin> set z \<longrightarrow> GetSubstitution tok x y z = z"
    for sub x y
    by (simp add: GetSubstitution_plain)
  have fin: ?thesis
    if split: "token_steps h = before @ (tok, sub) # after"
      and bl: "blocked tok tok (replace_each before ?r0)"
    for before sub after
  proof -
    from own_step_result [OF hd split p bl, of st w] obtain x y where
      "replace_each before ?r0 = x @ tok @ y" "\<not> sublist tok (x @ butlast tok)" "sublist tok y"
      "resolvePath h st j (Some p) w
         = resolve_wsl st w (remove_stars (replace_each after
             (case sub of None \<Rightarrow> x @ tok @ y
              | Some z \<Rightarrow> x @ GetSubstitution tok x y z @ y)))"
      by blast
    with split still plain [of sub x y] show ?thesis by blast
  qed
  from tok show ?thesis
  proof (elim disjE)
    assume t: "tok = ''${workspaceFolder}''"
    show ?thesis
      using b0 unfolding t
      by (intro fin [unfolded t, OF token_steps_split(1)]) simp
  next
    assume t: "tok = ''${workspaceRoot}''"
    have "blocked tok tok (token_step (''${workspaceFolder}'', Some (rootUri_fsPath h)) ?r0)"
      using b0 unfolding t
      by (intro token_step_blocked token_facts token_incomparable token_apart)
    then show ?thesis
      unfolding t
      by (intro fin [unfolded t, OF token_steps_split(2)]) simp
  next
    assume t: "tok = ''${vcpkgRoot}''"
    have "blocked tok tok (token_step (''${workspaceRoot}'', Some (rootUri_fsPath h))
                 (token_step (''${workspaceFolder}'', Some (rootUri_fsPath h)) ?r0))"
      using b0 unfolding t
      by (intro token_step_blocked token_facts token_incomparable token_apart)
    then show ?thesis
      unfolding t
      by (intro fin [unfolded t, OF token_steps_split(3)]) simp
  qed
qed

theorem later_occurrence_remains_witness:
  "(\<exists>before sub after x y.
      token_steps windows_host = before @ (''${workspaceFolder}'', sub) # after
    \<and> replace_each before (resolveVariables windows_host ''${workspaceFolder}/a;${workspaceFolder}/b''
         (ExtendedEnvironment windows_host (document_of [''A''] (Some 4))))
        = x @ ''${workspaceFolder}'' @ y
    \<and> \<not> sublist ''${workspaceFolder}'' (x @ butlast ''${workspaceFolder}'')
    \<and> sublist ''${workspaceFolder}'' y
    \<and> resolvePath windows_host (loaded [''A''] 0 False) (document_of [''A''] (Some 4))
        (Some ''${workspaceFolder}/a;${workspaceFolder}/b'') True
        = resolve_wsl (loaded [''A''] 0 False) True (remove_stars (replace_each after
            (case sub of None \<Rightarrow> x @ ''${workspaceFolder}'' @ y
             | Some z \<Rightarrow> x @ GetSubstitution ''${workspaceFolder}'' x y z @ y)))
    \<and> (\<forall>z. sub = Some z \<longrightarrow> CHR ''$'' \<notin> set z
           \<longrightarrow> GetSubstitution ''${workspaceFolder}'' x y z = z)
    \<and> sublist ''${workspaceFolder}''
        (resolvePath windows_host (loaded [''A''] 0 False) (document_of [''A''] (Some 4))
           (Some ''${workspaceFolder}/a;${workspaceFolder}/b'') True))
   \<and> resolvePath windows_host (loaded [''A''] 0 False) (document_of [''A''] (Some 4))
        (Some ''${workspaceFolder}/a;${workspaceFolder}/b'') True
       = ''C:/proj/a;${workspaceFolder}/b''"
proof -
  have two: "resolveVariables windows_host ''${workspaceFolder}/a;${workspaceFolder}/b''
               (ExtendedEnvironment windows_host (document_of [''A''] (Some 4)))
             = [] @ ''${workspaceFolder}'' @ ''/a;${workspaceFolder}/b''"
    by (simp add: windows_host_def linux_host_def unchanged_def)
  have later: "sublist ''${workspaceFolder}'' ''/a;${workspaceFolder}/b''"
    by (simp add: sublist_code prefix_code)
  have wr: "True \<longrightarrow> CHR '':'' \<in> set (rootUri_fsPath windows_host)
                  \<or> CHR 0x5C \<in> set (rootUri_fsPath windows_host)"
    by (simp add: windows_host_def linux_host_def)
  have wv: "True \<longrightarrow> (\<forall>v. getVcpkgRoot windows_host = Some v \<and> v \<noteq> []
                  \<longrightarrow> CHR '':'' \<in> set v \<or> CHR 0x5C \<in> set v)"
    by (simp add: windows_host_def linux_host_def)
  have 1: "\<exists>before sub after x y.
      token_steps windows_host = before @ (''${workspaceFolder}'', sub) # after
    \<and> replace_each before (resolveVariables windows_host ''${workspaceFolder}/a;${workspaceFolder}/b''
         (ExtendedEnvironment windows_host (document_of [''A''] (Some 4))))
        = x @ ''${workspaceFolder}'' @ y
    \<and> \<not> sublist ''${workspaceFolder}'' (x @ butlast ''${workspaceFolder}'')
    \<and> sublist ''${workspaceFolder}'' y
    \<and> resolvePath windows_host (loaded [''A''] 0 False) (document_of [''A''] (Some 4))
        (Some ''${workspaceFolder}/a;${workspaceFolder}/b'') True
        = resolve_wsl (loaded [''A''] 0 False) True (remove_stars (replace_each after
            (case sub of None \<Rightarrow> x @ ''${workspaceFolder}'' @ y
             | Some z \<Rightarrow> x @ GetSubstitution ''${workspaceFolder}'' x y z @ y)))
    \<and> (\<forall>z. sub = Some z \<longrightarrow> CHR ''$'' \<notin> set z
           \<longrightarrow> GetSubstitution ''${workspaceFolder}'' x y z = z)
    \<and> sublist ''${workspaceFolder}''
        (resolvePath windows_host (loaded [''A''] 0 False) (document_of [''A''] (Some 4))
           (Some ''${workspaceFolder}/a;${workspaceFolder}/b'') True)"
    by (rule later_occurrence_remains [OF _ _ _ two later wr wv]) simp_all
  have 2: "resolvePath windows_host (loaded [''A''] 0 False) (document_of [''A''] (Some 4))
        (Some ''${workspaceFolder}/a;${workspaceFolder}/b'') True
       = ''C:/proj/a;${workspaceFolder}/b''"
    by (simp add: resolvePath_def resolve_wsl_def remove_stars_def replace_tokens_def
          replace_js_def windows_host_def linux_host_def unchanged_def truthy_def
          default_token_def sublist_code prefix_code)
  from 1 2 show ?thesis by (rule conjI)
qed

subsection \<open>Diagnostics for paths that are not found\<close>





































text \<open>The pass on the sample document.\<close>

lemmas regex_simps = search_items_def indexOf_def substr_from_def substr_to_def dquote_def
  is_space_def is_delim_def is_line_terminator_def path_here_def search_path_def key_items_def

lemmas squiggle_simps = handleSquiggles_def squiggle_window_def squiggle_path_def squiggle_mode_def
  squiggle_message_def check_path_def paths_of_interest_def add_paths_def key_ranges_def
  config_window_def normalize_separators_def changedSquiggleMetrics_def nothing_done_def
  get_property_def set_property_def new_Map_def zero_metrics_def Map_prototype_names_def
  Object_prototype_names_def metric_names_def

lemmas host_simps = squiggle_host_def linux_host_def squiggle_parse_def no_settings_def loaded_def document_of_def
  new_configuration_def no_files_def unchanged_def last_component_def

lemmas path_simps = resolvePath_def resolve_wsl_def remove_stars_def replace_tokens_def
  truthy_def default_token_def sublist_code prefix_code ExtendedEnvironment_def


lemma nope_spans: "match_spans ''/nope'' (drop 27 nope_text) 0 = [(23, 7), (31, 13)]"
  by (simp add: nope_text_def match_spans.simps regex_simps prefix_code)








subsection \<open>The pass run twice\<close>

text \<open>
  What is kept for a name is what is read for it afterwards, and keeping it twice is
  keeping it once.
\<close>

lemma map_of_replace:
  "map_of xs n \<noteq> None \<Longrightarrow>
     map_of (map (\<lambda>(k, v). if k = n then (k, m) else (k, v)) xs) n = Some m"
  by (induction xs) (auto split: if_splits)

lemma map_replace_idem:
  "map (\<lambda>(k, v). if k = n then (k, m) else (k, v))
     (map (\<lambda>(k, v). if k = n then (k, m) else (k, v)) xs)
   = map (\<lambda>(k, v). if k = n then (k, m) else (k, v)) xs"
  by (induction xs) auto

lemma map_replace_absent:
  "map_of xs n = None \<Longrightarrow> map (\<lambda>(k, v). if k = n then (k, m) else (k, v)) xs = xs"
proof (induction xs)
  case Nil
  then show ?case by simp
next
  case (Cons x xs)
  then show ?case by (cases x) (auto split: if_splits)
qed

lemma get_after_set:
  assumes "set_property obj n m = Some obj'"
  shows "get_property obj' n = Counts m"
proof (cases "n = ''__proto__''")
  case True
  with assms show ?thesis by (auto simp: set_property_def get_property_def)
next
  case False
  show ?thesis
  proof (cases "map_of (own_properties obj) n")
    case None
    with False assms have "own_properties obj' = own_properties obj @ [(n, m)]"
      by (auto simp: set_property_def split: if_splits)
    with None False show ?thesis by (simp add: get_property_def map_add_def)
  next
    case (Some v)
    with False assms have
      "own_properties obj' = map (\<lambda>(k, v). if k = n then (k, m) else (k, v)) (own_properties obj)"
      by (auto simp: set_property_def split: if_splits)
    with Some False map_of_replace [of "own_properties obj" n m] show ?thesis
      by (simp add: get_property_def)
  qed
qed

lemma set_after_set:
  assumes "set_property obj n m = Some obj'"
  shows "set_property obj' n m = Some obj'"
proof (cases "n = ''__proto__''")
  case True
  with assms show ?thesis by (auto simp: set_property_def)
next
  case False
  show ?thesis
  proof (cases "map_of (own_properties obj) n")
    case None
    with False assms have o: "obj' = obj\<lparr>own_properties := own_properties obj @ [(n, m)]\<rparr>"
      by (auto simp: set_property_def split: if_splits)
    have "map_of (own_properties obj @ [(n, m)]) n = Some m" using None by (simp add: map_add_def)
    with False o None show ?thesis
      by (simp add: set_property_def map_replace_absent)
  next
    case (Some v)
    with False assms have o:
      "obj' = obj\<lparr>own_properties :=
                 map (\<lambda>(k, v). if k = n then (k, m) else (k, v)) (own_properties obj)\<rparr>"
      by (auto simp: set_property_def split: if_splits)
    from Some map_of_replace [of "own_properties obj" n m]
    have "map_of (map (\<lambda>(k, v). if k = n then (k, m) else (k, v)) (own_properties obj)) n = Some m"
      by simp
    with False o show ?thesis
      by (simp add: set_property_def map_replace_idem del: map_map)
  qed
qed

lemma changedSquiggleMetrics_same: "changedSquiggleMetrics (Counts m) m = []"
  by (simp add: changedSquiggleMetrics_def)


text \<open>The counts that are kept play no part in the diagnostics.\<close>

lemma resolve_wsl_store: "resolve_wsl (st\<lparr>prevSquiggleMetrics := x\<rparr>) = resolve_wsl st"
  by (intro ext) (simp add: resolve_wsl_def)

lemma resolvePath_store: "resolvePath h (st\<lparr>prevSquiggleMetrics := x\<rparr>) = resolvePath h st"
  by (intro ext) (simp only: resolvePath_def resolve_wsl_store)

lemma check_path_store: "check_path h (st\<lparr>prevSquiggleMetrics := x\<rparr>) = check_path h st"
  by (intro ext) (simp only: check_path_def resolvePath_store)

lemma squiggle_path_store: "squiggle_path h (st\<lparr>prevSquiggleMetrics := x\<rparr>) = squiggle_path h st"
  by (intro ext) (simp only: squiggle_path_def check_path_store)

lemma squiggle_window_store:
  "squiggle_window h (st\<lparr>prevSquiggleMetrics := x\<rparr>) = squiggle_window h st"
  by (intro ext) (simp only: squiggle_window_def squiggle_path_store)

text \<open>
  When a run ends without an exception, the run that follows on the same text, in the
  same state but for the counts kept, gives the collection the same diagnostics, keeps
  the same counts and reports no category.
\<close>

lemma second_run:
  assumes nt: "\<not> threw (handleSquiggles h st text)"
  shows "collection (handleSquiggles h
             (st\<lparr>prevSquiggleMetrics := metrics_after (handleSquiggles h st text)\<rparr>) text)
           = collection (handleSquiggles h st text)
       \<and> metrics_after (handleSquiggles h
             (st\<lparr>prevSquiggleMetrics := metrics_after (handleSquiggles h st text)\<rparr>) text)
           = metrics_after (handleSquiggles h st text)
       \<and> \<not> threw (handleSquiggles h
             (st\<lparr>prevSquiggleMetrics := metrics_after (handleSquiggles h st text)\<rparr>) text)
       \<and> (\<forall>c. ConfigSquigglesChanged c \<notin> set (telemetry (handleSquiggles h
             (st\<lparr>prevSquiggleMetrics := metrics_after (handleSquiggles h st text)\<rparr>) text)))"
    (is ?thesis)
proof -
  let ?o1 = "handleSquiggles h st text"
  have early: ?thesis
    if "metrics_after ?o1 = prevSquiggleMetrics st"
      and "\<forall>c. ConfigSquigglesChanged c \<notin> set (telemetry ?o1)"
  proof -
    have "st\<lparr>prevSquiggleMetrics := metrics_after ?o1\<rparr> = st" using that(1) by simp
    then show ?thesis using that(2) nt by simp
  qed
  show ?thesis
  proof (cases "propertiesFile st")
    case None
    then have "?o1 = nothing_done st" by (simp add: handleSquiggles_def)
    then show ?thesis by (intro early) (simp_all add: nothing_done_def)
  next
    case pf: (Some f)
    show ?thesis
    proof (cases "configurationJson st")
      case None
      with pf have "threw ?o1" by (simp add: handleSquiggles_def nothing_done_def)
      with nt show ?thesis by simp
    next
      case cj: (Some j)
      show ?thesis
      proof (cases "enableConfigurationSquiggles j = Some False \<or>
                    settings_defaultEnableConfigurationSquiggles (settings h) = Some False")
        case True
        with pf cj have "?o1 = (nothing_done st)\<lparr>collection := Cleared\<rparr>"
          by (auto simp: handleSquiggles_def)
        then show ?thesis by (intro early) (simp_all add: nothing_done_def)
      next
        case en: False
        show ?thesis
        proof (cases "JSON_parse h (escapeForSquiggles h text)")
          case jp: (Document parsed)
          let ?cc = "configurations parsed ! nat (currentConfigurationIndex st)"
          let ?n = "name ?cc"
          show ?thesis
          proof (cases "currentConfigurationIndex st < 0 \<or>
                        int (length (configurations parsed)) \<le> currentConfigurationIndex st")
            case True
            with pf cj en jp have "threw ?o1"
              by (auto simp: handleSquiggles_def nothing_done_def)
            with nt show ?thesis by simp
          next
            case idx: False
            show ?thesis
            proof (cases "?n = []")
              case True
              with pf cj en jp idx have "?o1 = nothing_done st"
                by (simp add: handleSquiggles_def Let_def)
              then show ?thesis by (intro early) (simp_all add: nothing_done_def)
            next
              case nm: False
              show ?thesis
              proof (cases "config_window text ?n")
                case ConfigNameNotFirst
                with pf cj en jp idx nm have "?o1 = (nothing_done st)
                    \<lparr>telemetry := [ConfigSquigglesError ''config name not first'']\<rparr>"
                  by (simp add: handleSquiggles_def Let_def)
                then show ?thesis by (intro early) (simp_all add: nothing_done_def)
              next
                case NextConfigNameNotFirst
                with pf cj en jp idx nm have "?o1 = (nothing_done st)
                    \<lparr>telemetry := [ConfigSquigglesError ''next config name not first'']\<rparr>"
                  by (simp add: handleSquiggles_def Let_def)
                then show ?thesis by (intro early) (simp_all add: nothing_done_def)
              next
                case cw: (Window off curText)
                let ?first = "if get_property (prevSquiggleMetrics st) ?n = Undefined
                              then set_property (prevSquiggleMetrics st) ?n zero_metrics
                              else Some (prevSquiggleMetrics st)"
                show ?thesis
                proof (cases ?first)
                  case None
                  with pf cj en jp idx nm cw have "threw ?o1"
                    by (simp add: handleSquiggles_def Let_def nothing_done_def)
                  with nt show ?thesis by simp
                next
                  case pr: (Some prev)
                  obtain ds new where sw:
                    "squiggle_window h st j (process_platform h = Win32) ?cc curText off = (ds, new)"
                    by (cases "squiggle_window h st j (process_platform h = Win32) ?cc curText off")
                  show ?thesis
                  proof (cases "set_property prev ?n new")
                    case None
                    with pf cj en jp idx nm cw pr sw have "threw ?o1"
                      by (simp add: handleSquiggles_def Let_def)
                    with nt show ?thesis by simp
                  next
                    case sp: (Some kept)
                    from pf cj en jp idx nm cw pr sw sp have o1: "?o1 =
                        \<lparr>collection = (if ds \<noteq> [] then SetTo ds else Cleared),
                         telemetry =
                           (if changedSquiggleMetrics (get_property prev ?n) new \<noteq> []
                            then [ConfigSquigglesChanged
                                    (changedSquiggleMetrics (get_property prev ?n) new)]
                            else []),
                         metrics_after = kept, threw = False\<rparr>"
                      by (simp add: handleSquiggles_def Let_def)
                    have g: "get_property kept ?n = Counts new" by (rule get_after_set [OF sp])
                    have s: "set_property kept ?n new = Some kept" by (rule set_after_set [OF sp])
                    from pf cj en jp idx nm cw sw g s
                    have "handleSquiggles h (st\<lparr>prevSquiggleMetrics := kept\<rparr>) text =
                        \<lparr>collection = (if ds \<noteq> [] then SetTo ds else Cleared),
                         telemetry = [], metrics_after = kept, threw = False\<rparr>"
                      by (simp add: handleSquiggles_def Let_def squiggle_window_store
                          changedSquiggleMetrics_same)
                    then show ?thesis by (simp add: o1)
                  qed
                qed
              qed
            qed
          qed
        next
          case SyntaxError
          with pf cj en have "threw ?o1" by (simp add: handleSquiggles_def nothing_done_def)
          with nt show ?thesis by simp
        next
          case Falsy
          with pf cj en have "threw ?o1" by (simp add: handleSquiggles_def nothing_done_def)
          with nt show ?thesis by simp
        next
          case NoConfigurations
          with pf cj en have "threw ?o1" by (simp add: handleSquiggles_def nothing_done_def)
          with nt show ?thesis by simp
        qed
      qed
    qed
  qed
qed

text \<open>
  C9 fails for a configuration named \<open>size\<close>. The counts are read and kept with
  brackets on a \<open>Map\<close>: \<open>this.prevSquiggleMetrics["size"]\<close> is the number of entries of
  the map, 0, not \<open>undefined\<close>, so no counts are there to compare with and the five
  categories are reported; and the assignment at the end throws a \<open>TypeError\<close>, so
  nothing is kept. The second run on the same text reports the five categories again.
\<close>

theorem squiggles_size_second_run:
  "telemetry (handleSquiggles squiggle_host
       ((loaded [''size''] 0 False)
          \<lparr>prevSquiggleMetrics :=
             metrics_after (handleSquiggles squiggle_host (loaded [''size''] 0 False) size_text)\<rparr>)
       size_text)
     = [ConfigSquigglesChanged
          [(''PathNonExistent'', 0), (''PathNotAFile'', 0), (''PathNotADirectory'', 0),
           (''CompilerPathMissingQuotes'', 0), (''CompilerModeMismatch'', 0)]]
   \<and> threw (handleSquiggles squiggle_host (loaded [''size''] 0 False) size_text)
   \<and> collection (handleSquiggles squiggle_host (loaded [''size''] 0 False) size_text) = Cleared
   \<and> metrics_after (handleSquiggles squiggle_host (loaded [''size''] 0 False) size_text) = new_Map"
proof -
  have first: "handleSquiggles squiggle_host (loaded [''size''] 0 False) size_text =
     \<lparr>collection = Cleared,
      telemetry = [ConfigSquigglesChanged
          [(''PathNonExistent'', 0), (''PathNotAFile'', 0), (''PathNotADirectory'', 0),
           (''CompilerPathMissingQuotes'', 0), (''CompilerModeMismatch'', 0)]],
      metrics_after = new_Map, threw = True\<rparr>"
    by (simp add: squiggle_simps host_simps path_simps regex_simps nope_text_def nope_document_def
        size_text_def match_all.simps Let_def)
  have same: "(loaded [''size''] 0 False)\<lparr>prevSquiggleMetrics := new_Map\<rparr> = loaded [''size''] 0 False"
    by (simp add: loaded_def)
  show ?thesis
    by (simp add: first same)
qed

end
